theory Spec2Isabelle
  imports Complex_Main "HOL-Library.Multiset" "HOL-Library.Signed_Division"
begin

section \<open>Data model (headers/order.hpp, traders/base.hpp, makers/MarketMaker.hpp, headers/market.hpp)\<close>

text \<open>
  A C++ \<^verbatim>\<open>double\<close> is read as a real number (rounding, infinities and NaN are outside the
  model) and a C++ \<^verbatim>\<open>int\<close> as an unbounded integer (time steps and ids count up from 0 and
  the engine only compares and subtracts them).
  Field names of the structs are kept; where two structs share a field name the field
  carries a short prefix (\<open>o_\<close> for Order, \<open>t_\<close> for Trade, \<open>mt_\<close> for MarketTick).
\<close>

record order =
  o_type :: string
  o_price :: real
  o_trader_id :: int
  o_timestep :: int
  o_trader_type :: string
  o_position_size :: real

record trade =
  t_price :: real
  t_quantity :: real
  buyer_id :: int
  seller_id :: int
  t_timestep :: int
  buyer_type :: string
  seller_type :: string

record market_tick =
  last_price :: real
  volume :: real
  vwap :: real
  mid_price :: real
  mt_timestep :: int

text \<open>
  The bet sizers (betsize/fractional.hpp, betsize/kelly.hpp) are carried as data only: the
  market never calls them, evolution copies the handle of the champion.
\<close>

datatype sizer = Fractional real real | Kelly real real

text \<open>
  Modelled from the spec: the class \<^verbatim>\<open>MeanReverter\<close> (traders/MeanReverter.hpp is not
  part of the sources at hand). The spec gives it the type tag \<^verbatim>\<open>MeanReverter\<close> and a
  short/long window pair, which is also how market.cpp and init_traders.cpp construct it.
  The other two subclasses of \<^verbatim>\<open>Trader\<close> are taken from Monkey.hpp (noise weight) and
  MomentumTrader.hpp (short and long window). The field \<^verbatim>\<open>trader_type\<close> of \<^verbatim>\<open>Trader\<close> is
  left out: the market reads the type through \<^verbatim>\<open>get_type()\<close> only.
\<close>

datatype strategy =
    MonkeyTrader real
  | MeanReverter int int
  | MomentumTrader int int

record trader =
  trader_id :: int
  cash :: real
  position :: real
  strategy :: strategy
  betsizer :: sizer

fun type_of_strategy :: "strategy \<Rightarrow> string" where
  "type_of_strategy (MonkeyTrader w) = ''Monkey''"
| "type_of_strategy (MeanReverter s l) = ''MeanReverter''"
| "type_of_strategy (MomentumTrader s l) = ''MomentumTrader''"

definition get_type :: "trader \<Rightarrow> string" where
  "get_type t = type_of_strategy (strategy t)"

definition get_id :: "trader \<Rightarrow> int" where
  "get_id t = trader_id t"

definition get_value :: "trader \<Rightarrow> real \<Rightarrow> real" where
  "get_value t market_price = position t * market_price + cash t"

text \<open>\<^verbatim>\<open>Trader::update_position\<close>: every side other than \<^verbatim>\<open>"BUY"\<close> takes the else branch.\<close>

definition update_position :: "string \<Rightarrow> real \<Rightarrow> real \<Rightarrow> trader \<Rightarrow> trader" where
  "update_position side price quantity t =
     (if side = ''BUY''
      then t\<lparr>cash := cash t - price, position := position t + quantity\<rparr>
      else t\<lparr>cash := cash t + price, position := position t - quantity\<rparr>)"

record market_maker =
  mm_id :: int
  fundamental_price :: real
  spread :: real

text \<open>\<^verbatim>\<open>MarketMaker::quote\<close>: the noise term is the constant 0, the size the constant 10,
  and both orders carry the origin time step 0.\<close>

definition quote :: "market_maker \<Rightarrow> real \<Rightarrow> order list" where
  "quote mm current_market_price =
     (let fair_value = current_market_price;
          noise = 0;
          bid = fair_value - spread mm / 2 + noise;
          ask = fair_value + spread mm / 2 + noise;
          size = 10
      in [\<lparr>o_type = ''BUY'', o_price = bid, o_trader_id = mm_id mm, o_timestep = 0,
            o_trader_type = ''MarketMaker'', o_position_size = size\<rparr>,
          \<lparr>o_type = ''SELL'', o_price = ask, o_trader_id = mm_id mm, o_timestep = 0,
            o_trader_type = ''MarketMaker'', o_position_size = size\<rparr>])"

text \<open>
  One side of the book, \<^verbatim>\<open>std::map<double, std::queue<Order>>\<close>: the levels in the
  map's iteration order, each with its queue (front of the queue first). \<^verbatim>\<open>begin()\<close> is
  the head of the list.
\<close>

type_synonym level = "real \<times> order list"

type_synonym book_side = "level list"

text \<open>
  The traders are shared objects (\<^verbatim>\<open>std::shared_ptr<Trader>\<close>) reachable from the roster
  \<^verbatim>\<open>traders\<close> and from \<^verbatim>\<open>trader_map\<close>: \<open>store\<close> holds the objects, a handle is an index
  into it, and \<^verbatim>\<open>std::make_shared\<close> appends a new object. File output (trades.csv,
  price.csv, trader_counts.csv, stdout) is not part of the state.
\<close>

record market =
  timestep :: int
  market_price :: real
  evolution_ticks :: int
  evolve :: bool
  kill_percentage :: real
  write_every :: int
  max_order_age :: int
  trader_volume :: "string \<rightharpoonup> real"
  total_trade_volume :: real
  total_price_volume :: real
  store :: "trader list"
  traders :: "nat list"
  market_makers :: "market_maker list"
  buys :: book_side
  sells :: book_side
  trade_history :: "trade list"
  tick_history :: "market_tick list"
  trader_map :: "int \<rightharpoonup> nat"

text \<open>What C++ leaves undefined is a fault of the model.\<close>

datatype fault =
    EmptyBook
  | EmptyQueueFront
  | DivisionByZero
  | EmptyRosterFront

section \<open>Order book operations used by the matching engine\<close>

text \<open>\<^verbatim>\<open>it->second.pop(); if (it->second.empty()) side.erase(it);\<close> at \<^verbatim>\<open>it = side.begin()\<close>.\<close>

fun pop_front :: "book_side \<Rightarrow> book_side" where
  "pop_front [] = []"
| "pop_front ((k, q) # rest) = (if tl q = [] then rest else (k, tl q) # rest)"

text \<open>\<^verbatim>\<open>side[p].push(o)\<close> for a map ordered by \<open>lt\<close> (\<open>(<)\<close> for sells, \<open>(>)\<close> for buys):
  the order joins the back of the queue of its level, a missing level is created in place.\<close>

fun level_push :: "(real \<Rightarrow> real \<Rightarrow> bool) \<Rightarrow> real \<Rightarrow> order \<Rightarrow> book_side \<Rightarrow> book_side" where
  "level_push lt p ordr [] = [(p, [ordr])]"
| "level_push lt p ordr ((k, q) # rest) =
     (if p = k then (k, q @ [ordr]) # rest
      else if lt p k then (p, [ordr]) # (k, q) # rest
      else (k, q) # level_push lt p ordr rest)"

text \<open>\<^verbatim>\<open>trader_volume[type] += quantity\<close>: a missing key starts at 0.\<close>

definition add_volume :: "(string \<rightharpoonup> real) \<Rightarrow> string \<Rightarrow> real \<Rightarrow> (string \<rightharpoonup> real)" where
  "add_volume tv ty quantity = tv(ty \<mapsto> (case tv ty of None \<Rightarrow> 0 | Some v \<Rightarrow> v) + quantity)"

text \<open>\<^verbatim>\<open>auto it = trader_map.find(id); if (it != trader_map.end()) it->second->update_position(...)\<close>.\<close>

definition ledger_update ::
  "(int \<rightharpoonup> nat) \<Rightarrow> int \<Rightarrow> string \<Rightarrow> real \<Rightarrow> real \<Rightarrow> trader list \<Rightarrow> trader list" where
  "ledger_update tm ident side price quantity st =
     (case tm ident of
        None \<Rightarrow> st
      | Some a \<Rightarrow> st[a := update_position side price quantity (st ! a)])"

section \<open>The matching engine: \<^verbatim>\<open>Market::process_aggressive_order\<close>\<close>

text \<open>One pass through the body of the \<^verbatim>\<open>while\<close> loop of the BUY branch.\<close>

definition buy_step :: "order \<Rightarrow> order \<Rightarrow> market \<Rightarrow> fault + order \<times> market" where
  "buy_step ord remaining_order m =
     (case sells m of
        [] \<Rightarrow> Inl EmptyBook
      | (k, q) # rest \<Rightarrow>
          (case q of
             [] \<Rightarrow> Inl EmptyQueueFront
           | sell_order # q' \<Rightarrow>
               if o_trader_id remaining_order = o_trader_id sell_order then
                 Inr (remaining_order, m\<lparr>sells := pop_front (sells m)\<rparr>)
               else if timestep m - o_timestep sell_order > max_order_age m then
                 Inr (remaining_order, m\<lparr>sells := pop_front (sells m)\<rparr>)
               else
                 let trade_price = o_price sell_order;
                     quantity = min (o_position_size remaining_order) (o_position_size sell_order);
                     st1 = ledger_update (trader_map m) (o_trader_id remaining_order)
                             ''BUY'' trade_price quantity (store m);
                     st2 = ledger_update (trader_map m) (o_trader_id sell_order)
                             ''SELL'' trade_price quantity st1;
                     trade = \<lparr>t_price = trade_price, t_quantity = quantity,
                              buyer_id = o_trader_id remaining_order,
                              seller_id = o_trader_id sell_order,
                              t_timestep = timestep m,
                              buyer_type = o_trader_type remaining_order,
                              seller_type = o_trader_type sell_order\<rparr>;
                     sell_order' = sell_order\<lparr>o_position_size := o_position_size sell_order - quantity\<rparr>;
                     remaining_order' = remaining_order
                              \<lparr>o_position_size := o_position_size remaining_order - quantity\<rparr>;
                     popped = pop_front (sells m);
                     sells' = (if o_position_size sell_order' > 0
                               then level_push (<) (o_price sell_order') sell_order' popped
                               else popped)
                 in Inr (remaining_order',
                         m\<lparr>trader_volume := add_volume (trader_volume m) (o_trader_type ord) quantity,
                           total_trade_volume := total_trade_volume m + quantity,
                           total_price_volume := total_price_volume m + trade_price * quantity,
                           store := st2,
                           trade_history := trade_history m @ [trade],
                           market_price := trade_price,
                           sells := sells'\<rparr>)))"

text \<open>One pass through the body of the \<^verbatim>\<open>while\<close> loop of the SELL branch.\<close>

definition sell_step :: "order \<Rightarrow> order \<Rightarrow> market \<Rightarrow> fault + order \<times> market" where
  "sell_step ord remaining_order m =
     (case buys m of
        [] \<Rightarrow> Inl EmptyBook
      | (k, q) # rest \<Rightarrow>
          (case q of
             [] \<Rightarrow> Inl EmptyQueueFront
           | buy_order # q' \<Rightarrow>
               if o_trader_id remaining_order = o_trader_id buy_order then
                 Inr (remaining_order, m\<lparr>buys := pop_front (buys m)\<rparr>)
               else if timestep m - o_timestep buy_order > max_order_age m then
                 Inr (remaining_order, m\<lparr>buys := pop_front (buys m)\<rparr>)
               else
                 let trade_price = o_price buy_order;
                     quantity = min (o_position_size remaining_order) (o_position_size buy_order);
                     st1 = ledger_update (trader_map m) (o_trader_id buy_order)
                             ''BUY'' trade_price quantity (store m);
                     st2 = ledger_update (trader_map m) (o_trader_id remaining_order)
                             ''SELL'' trade_price quantity st1;
                     trade = \<lparr>t_price = trade_price, t_quantity = quantity,
                              buyer_id = o_trader_id buy_order,
                              seller_id = o_trader_id remaining_order,
                              t_timestep = timestep m,
                              buyer_type = o_trader_type buy_order,
                              seller_type = o_trader_type remaining_order\<rparr>;
                     buy_order' = buy_order\<lparr>o_position_size := o_position_size buy_order - quantity\<rparr>;
                     remaining_order' = remaining_order
                              \<lparr>o_position_size := o_position_size remaining_order - quantity\<rparr>;
                     popped = pop_front (buys m);
                     buys' = (if o_position_size buy_order' > 0
                              then level_push (>) (o_price buy_order') buy_order' popped
                              else popped)
                 in Inr (remaining_order',
                         m\<lparr>trader_volume := add_volume (trader_volume m) (o_trader_type ord) quantity,
                           total_trade_volume := total_trade_volume m + quantity,
                           total_price_volume := total_price_volume m + trade_price * quantity,
                           store := st2,
                           trade_history := trade_history m @ [trade],
                           market_price := trade_price,
                           buys := buys'\<rparr>)))"

text \<open>The number of resting orders of a side, the measure under which the loops end.\<close>

definition order_count :: "book_side \<Rightarrow> nat" where
  "order_count side = sum_list (map (\<lambda>lv. length (snd lv)) side)"

definition buy_cond :: "order \<Rightarrow> market \<Rightarrow> bool" where
  "buy_cond remaining_order m \<longleftrightarrow>
     sells m \<noteq> [] \<and> o_price remaining_order \<ge> fst (hd (sells m)) \<and> o_position_size remaining_order > 0"

definition sell_cond :: "order \<Rightarrow> market \<Rightarrow> bool" where
  "sell_cond remaining_order m \<longleftrightarrow>
     buys m \<noteq> [] \<and> o_price remaining_order \<le> fst (hd (buys m)) \<and> o_position_size remaining_order > 0"

definition loop_measure :: "order \<Rightarrow> book_side \<Rightarrow> nat" where
  "loop_measure remaining_order side =
     2 * order_count side + (if o_position_size remaining_order > 0 then 1 else 0)"

text \<open>The \<^verbatim>\<open>while\<close> loop of the BUY branch: it returns the remaining order and the market.\<close>

function buy_loop :: "order \<Rightarrow> order \<Rightarrow> market \<Rightarrow> fault + order \<times> market" where
  "buy_loop ord remaining_order m =
     (if buy_cond remaining_order m
      then (case buy_step ord remaining_order m of
              Inl e \<Rightarrow> Inl e
            | Inr (remaining_order', m') \<Rightarrow> buy_loop ord remaining_order' m')
      else Inr (remaining_order, m))"
  by pat_completeness auto

text \<open>The \<^verbatim>\<open>while\<close> loop of the SELL branch.\<close>

function sell_loop :: "order \<Rightarrow> order \<Rightarrow> market \<Rightarrow> fault + order \<times> market" where
  "sell_loop ord remaining_order m =
     (if sell_cond remaining_order m
      then (case sell_step ord remaining_order m of
              Inl e \<Rightarrow> Inl e
            | Inr (remaining_order', m') \<Rightarrow> sell_loop ord remaining_order' m')
      else Inr (remaining_order, m))"
  by pat_completeness auto

text \<open>\<^verbatim>\<open>Market::process_aggressive_order\<close>: an order that is neither BUY nor SELL (a HOLD)
  leaves the market as it is.\<close>

definition process_aggressive_order :: "order \<Rightarrow> market \<Rightarrow> fault + market" where
  "process_aggressive_order ord m =
     (if o_type ord = ''BUY'' then
        (case buy_loop ord ord m of
           Inl e \<Rightarrow> Inl e
         | Inr (remaining_order, m') \<Rightarrow>
             Inr (if o_position_size remaining_order > 0
                  then m'\<lparr>buys := level_push (>) (o_price remaining_order) remaining_order (buys m')\<rparr>
                  else m'))
      else if o_type ord = ''SELL'' then
        (case sell_loop ord ord m of
           Inl e \<Rightarrow> Inl e
         | Inr (remaining_order, m') \<Rightarrow>
             Inr (if o_position_size remaining_order > 0
                  then m'\<lparr>sells := level_push (<) (o_price remaining_order) remaining_order (sells m')\<rparr>
                  else m'))
      else Inr m)"

section \<open>Best prices and removal of market-maker orders\<close>

text \<open>\<^verbatim>\<open>std::numeric_limits<double>::max()\<close>, the largest finite double.\<close>

definition DBL_MAX :: real where
  "DBL_MAX = (2 - 1 / 2 ^ 52) * 2 ^ 1023"

definition get_best_bid :: "market \<Rightarrow> real" where
  "get_best_bid m = (if buys m = [] then 0 else fst (hd (buys m)))"

definition get_best_ask :: "market \<Rightarrow> real" where
  "get_best_ask m = (if sells m = [] then DBL_MAX else fst (hd (sells m)))"

text \<open>The lambda \<^verbatim>\<open>remove_mm_orders\<close> of \<^verbatim>\<open>clear_market_maker_orders\<close>; the loop over
  \<^verbatim>\<open>sells\<close> written out after it in the source has the same body.\<close>

fun remove_mm_orders :: "book_side \<Rightarrow> book_side" where
  "remove_mm_orders [] = []"
| "remove_mm_orders ((k, q) # rest) =
     (let filtered = filter (\<lambda>ordr. o_trader_type ordr \<noteq> ''MarketMaker'') q
      in if filtered = [] then remove_mm_orders rest
         else (k, filtered) # remove_mm_orders rest)"

definition clear_market_maker_orders :: "market \<Rightarrow> market" where
  "clear_market_maker_orders m =
     (let m1 = m\<lparr>buys := remove_mm_orders (buys m)\<rparr>
      in m1\<lparr>sells := remove_mm_orders (sells m1)\<rparr>)"

section \<open>Population evolution: \<^verbatim>\<open>Market::evolve_traders\<close>\<close>

text \<open>\<^verbatim>\<open>std::round\<close>: to the nearest integer, halves away from zero.\<close>

definition cpp_round :: "real \<Rightarrow> int" where
  "cpp_round x = (if x \<ge> 0 then \<lfloor>x + 1 / 2\<rfloor> else - \<lfloor>- x + 1 / 2\<rfloor>)"

text \<open>The first loop: the id of the first trader of each of the three types, in ranking
  order; \<open>sv\<close> is \<^verbatim>\<open>survivor_ids\<close> as an association list (a key is added once only).\<close>

fun find_survivors :: "(string \<times> int) list \<Rightarrow> trader list \<Rightarrow> (string \<times> int) list" where
  "find_survivors sv [] = sv"
| "find_survivors sv (t # ts) =
     (let ty = get_type t in
      if (ty = ''Monkey'' \<or> ty = ''MeanReverter'' \<or> ty = ''MomentumTrader'') \<and> map_of sv ty = None
      then (let sv' = sv @ [(ty, get_id t)]
            in if length sv' = 3 then sv' else find_survivors sv' ts)
      else find_survivors sv ts)"

text \<open>The second loop, over the ranking from its last element to its first: the argument is
  the reversed ranking, \<open>killed\<close> the counter.\<close>

fun mark_to_kill :: "(string \<times> int) list \<Rightarrow> int \<Rightarrow> int \<Rightarrow> trader list \<Rightarrow> int list" where
  "mark_to_kill sv kill_count killed [] = []"
| "mark_to_kill sv kill_count killed (t # ts) =
     (if killed < kill_count then
        (if map_of sv (get_type t) = Some (get_id t)
         then mark_to_kill sv kill_count killed ts
         else get_id t # mark_to_kill sv kill_count (killed + 1) ts)
      else [])"

text \<open>The constructors called with the champion's parameters and the killed trader's id;
  cash and position take the defaults of \<^verbatim>\<open>Trader\<close>.\<close>

definition clone :: "trader \<Rightarrow> int \<Rightarrow> trader" where
  "clone top_trader ident =
     \<lparr>trader_id = ident, cash = 100000, position = 10,
      strategy = strategy top_trader, betsizer = betsizer top_trader\<rparr>"

text \<open>\<^verbatim>\<open>for (auto& trader : traders) if (trader->get_id() == id) { trader = new_trader; break; }\<close>\<close>

fun replace_first :: "trader list \<Rightarrow> int \<Rightarrow> nat \<Rightarrow> nat list \<Rightarrow> nat list" where
  "replace_first st ident new_trader [] = []"
| "replace_first st ident new_trader (a # as) =
     (if get_id (st ! a) = ident then new_trader # as
      else a # replace_first st ident new_trader as)"

text \<open>One pass through the body of \<^verbatim>\<open>for (int id : to_kill)\<close>; \<open>top_trader\<close> is the handle
  \<^verbatim>\<open>top\<close> of the champion.\<close>

definition replace_trader :: "nat \<Rightarrow> int \<Rightarrow> market \<Rightarrow> market" where
  "replace_trader top_trader ident m =
     (let new_trader = length (store m);
          st = store m @ [clone (store m ! top_trader) ident]
      in m\<lparr>store := st,
           trader_map := (trader_map m)(ident \<mapsto> new_trader),
           traders := replace_first st ident new_trader (traders m)\<rparr>)"

text \<open>
  \<^verbatim>\<open>evolve_traders\<close> after \<^verbatim>\<open>std::sort\<close>: \<open>sorted_traders\<close> is the sorted copy \<^verbatim>\<open>sorted\<close> of the roster.
  \<^verbatim>\<open>std::sort\<close> leaves the order of traders of equal value open, so the sorted copy is an
  argument here. \<^verbatim>\<open>timestep % evolution_ticks\<close> is the truncating remainder \<open>smod\<close>.
\<close>

definition evolve_with :: "nat list \<Rightarrow> market \<Rightarrow> fault + market" where
  "evolve_with sorted_traders m =
     (if evolution_ticks m = 0 then Inl DivisionByZero
      else if timestep m smod evolution_ticks m \<noteq> 0 then Inr m
      else
        let objs = map (\<lambda>a. store m ! a) sorted_traders;
            kill_count = cpp_round (real (length sorted_traders) * kill_percentage m);
            survivor_ids = find_survivors [] objs;
            to_kill = mark_to_kill survivor_ids kill_count 0 (rev objs)
        in (case sorted_traders of
              [] \<Rightarrow> Inl EmptyRosterFront
            | top_trader # _ \<Rightarrow> Inr (fold (replace_trader top_trader) to_kill m)))"

text \<open>One result \<^verbatim>\<open>std::sort\<close> may give: insertion into a list of descending value.\<close>

fun insert_ranked :: "(nat \<Rightarrow> real) \<Rightarrow> nat \<Rightarrow> nat list \<Rightarrow> nat list" where
  "insert_ranked v a [] = [a]"
| "insert_ranked v a (b # bs) =
     (if v a \<ge> v b then a # b # bs else b # insert_ranked v a bs)"

definition ranking :: "market \<Rightarrow> nat list" where
  "ranking m =
     foldr (insert_ranked (\<lambda>a. get_value (store m ! a) (market_price m))) (traders m) []"

definition evolve_traders :: "market \<Rightarrow> fault + market" where
  "evolve_traders m = evolve_with (ranking m) m"

section \<open>The tick: \<^verbatim>\<open>Market::tick\<close>\<close>

text \<open>
  \<^verbatim>\<open>Trader::make_order\<close> is virtual and draws random numbers; the tick takes it as an
  argument: the order the trader at a roster position returns for the arguments
  (market price, best bid, best ask, tick history, time step) it is called with.
\<close>

type_synonym make_order_fn =
  "nat \<Rightarrow> trader \<Rightarrow> real \<Rightarrow> real \<Rightarrow> real \<Rightarrow> market_tick list \<Rightarrow> int \<Rightarrow> order"

fun process_all :: "order list \<Rightarrow> market \<Rightarrow> fault + market" where
  "process_all [] m = Inr m"
| "process_all (ordr # rest) m =
     (case process_aggressive_order ordr m of
        Inl e \<Rightarrow> Inl e
      | Inr m' \<Rightarrow> process_all rest m')"

fun maker_quotes :: "market_maker list \<Rightarrow> market \<Rightarrow> fault + market" where
  "maker_quotes [] m = Inr m"
| "maker_quotes (mm # rest) m =
     (case process_all (quote mm (market_price m)) m of
        Inl e \<Rightarrow> Inl e
      | Inr m' \<Rightarrow> maker_quotes rest m')"

fun trader_orders :: "make_order_fn \<Rightarrow> nat \<Rightarrow> nat list \<Rightarrow> market \<Rightarrow> fault + market" where
  "trader_orders make_order i [] m = Inr m"
| "trader_orders make_order i (a # rest) m =
     (let ordr = make_order i (store m ! a) (market_price m) (get_best_bid m) (get_best_ask m)
                   (tick_history m) (timestep m)
      in case process_aggressive_order ordr m of
           Inl e \<Rightarrow> Inl e
         | Inr m' \<Rightarrow> trader_orders make_order (Suc i) rest m')"

text \<open>The end of the tick: the snapshot appended to \<^verbatim>\<open>tick_history\<close>.\<close>

definition snapshot :: "market \<Rightarrow> market_tick" where
  "snapshot m =
     (let tick_vwap = (if total_trade_volume m > 0
                       then total_price_volume m / total_trade_volume m
                       else market_price m);
          best_bid = get_best_bid m;
          best_ask = get_best_ask m;
          mid = (best_bid + best_ask) / 2
      in \<lparr>last_price = market_price m, volume = total_trade_volume m, vwap = tick_vwap,
          mid_price = mid, mt_timestep = timestep m\<rparr>)"

text \<open>\<open>srt\<close> is the result of \<^verbatim>\<open>std::sort\<close> inside \<^verbatim>\<open>evolve_traders\<close>.\<close>

definition tick_with :: "(market \<Rightarrow> nat list) \<Rightarrow> make_order_fn \<Rightarrow> market \<Rightarrow> fault + market" where
  "tick_with srt make_order m =
     (let m1 = clear_market_maker_orders (m\<lparr>trader_volume := Map.empty\<rparr>);
          m2 = m1\<lparr>total_trade_volume := 0, total_price_volume := 0\<rparr>
      in case maker_quotes (market_makers m2) m2 of
           Inl e \<Rightarrow> Inl e
         | Inr m3 \<Rightarrow>
             (case trader_orders make_order 0 (traders m3) m3 of
                Inl e \<Rightarrow> Inl e
              | Inr m4 \<Rightarrow>
                  (let m5 = m4\<lparr>timestep := timestep m4 + 1\<rparr>
                   in case (if evolve m5 then evolve_with (srt m5) m5 else Inr m5) of
                        Inl e \<Rightarrow> Inl e
                      | Inr m6 \<Rightarrow>
                          if write_every m6 = 0 then Inl DivisionByZero
                          else Inr (m6\<lparr>tick_history := tick_history m6 @ [snapshot m6]\<rparr>))))"


section \<open>Auxiliary definitions and example states\<close>

text \<open>The predicates and functions below are used to state and prove the properties; the
  example states are small markets on which the definitions are evaluated.\<close>

definition no_empty_level :: "book_side \<Rightarrow> bool" where
  "no_empty_level side \<longleftrightarrow> (\<forall>lv \<in> set side. snd lv \<noteq> [])"

definition resting_orders :: "book_side \<Rightarrow> order list" where
  "resting_orders side = concat (map snd side)"

definition same_origin :: "order \<Rightarrow> order \<Rightarrow> bool" where
  "same_origin r' r \<longleftrightarrow>
     o_type r' = o_type r \<and> o_price r' = o_price r \<and> o_trader_id r' = o_trader_id r \<and>
     o_timestep r' = o_timestep r \<and> o_trader_type r' = o_trader_type r"

text \<open>The age test of the loop body: the resting order is older than \<^verbatim>\<open>max_order_age\<close>.\<close>

definition stale :: "market \<Rightarrow> order \<Rightarrow> bool" where
  "stale m r \<longleftrightarrow> timestep m - o_timestep r > max_order_age m"

definition taker_buys :: "market \<Rightarrow> order \<Rightarrow> order \<Rightarrow> trade \<Rightarrow> bool" where
  "taker_buys m incoming r t \<longleftrightarrow>
     t_price t = o_price r \<and> seller_id t = o_trader_id r \<and> seller_type t = o_trader_type r \<and>
     buyer_id t = o_trader_id incoming \<and> buyer_type t = o_trader_type incoming \<and>
     t_timestep t = timestep m \<and> o_trader_id incoming \<noteq> o_trader_id r \<and> \<not> stale m r"

definition taker_sells :: "market \<Rightarrow> order \<Rightarrow> order \<Rightarrow> trade \<Rightarrow> bool" where
  "taker_sells m incoming r t \<longleftrightarrow>
     t_price t = o_price r \<and> buyer_id t = o_trader_id r \<and> buyer_type t = o_trader_type r \<and>
     seller_id t = o_trader_id incoming \<and> seller_type t = o_trader_type incoming \<and>
     t_timestep t = timestep m \<and> o_trader_id incoming \<noteq> o_trader_id r \<and> \<not> stale m r"

definition buy_progress :: "order \<Rightarrow> market \<Rightarrow> order \<Rightarrow> market \<Rightarrow> bool" where
  "buy_progress incoming m incoming' m' \<longleftrightarrow>
     same_origin incoming' incoming \<and> timestep m' = timestep m \<and>
     max_order_age m' = max_order_age m \<and> buys m' = buys m \<and>
     (\<exists>ts. trade_history m' = trade_history m @ ts \<and>
           (\<forall>t \<in> set ts. \<exists>r \<in> set (resting_orders (sells m)). taker_buys m incoming r t)) \<and>
     (\<forall>r' \<in> set (resting_orders (sells m')). \<exists>r \<in> set (resting_orders (sells m)). same_origin r' r)"

definition sell_progress :: "order \<Rightarrow> market \<Rightarrow> order \<Rightarrow> market \<Rightarrow> bool" where
  "sell_progress incoming m incoming' m' \<longleftrightarrow>
     same_origin incoming' incoming \<and> timestep m' = timestep m \<and>
     max_order_age m' = max_order_age m \<and> sells m' = sells m \<and>
     (\<exists>ts. trade_history m' = trade_history m @ ts \<and>
           (\<forall>t \<in> set ts. \<exists>r \<in> set (resting_orders (buys m)). taker_sells m incoming r t)) \<and>
     (\<forall>r' \<in> set (resting_orders (buys m')). \<exists>r \<in> set (resting_orders (buys m)). same_origin r' r)"

text \<open>The trade record built by one pass of the BUY branch and of the SELL branch.\<close>

definition buy_trade :: "market \<Rightarrow> order \<Rightarrow> order \<Rightarrow> trade" where
  "buy_trade m remaining_order sell_order =
     \<lparr>t_price = o_price sell_order,
      t_quantity = min (o_position_size remaining_order) (o_position_size sell_order),
      buyer_id = o_trader_id remaining_order, seller_id = o_trader_id sell_order,
      t_timestep = timestep m,
      buyer_type = o_trader_type remaining_order, seller_type = o_trader_type sell_order\<rparr>"

definition sell_trade :: "market \<Rightarrow> order \<Rightarrow> order \<Rightarrow> trade" where
  "sell_trade m remaining_order buy_order =
     \<lparr>t_price = o_price buy_order,
      t_quantity = min (o_position_size remaining_order) (o_position_size buy_order),
      buyer_id = o_trader_id buy_order, seller_id = o_trader_id remaining_order,
      t_timestep = timestep m,
      buyer_type = o_trader_type buy_order, seller_type = o_trader_type remaining_order\<rparr>"

text \<open>Every resting order of type \<^verbatim>\<open>MarketMaker\<close> has the origin time step 0, as the orders
  of \<^verbatim>\<open>quote\<close> have.\<close>

definition mm_origin_zero :: "book_side \<Rightarrow> bool" where
  "mm_origin_zero side \<longleftrightarrow>
     (\<forall>r \<in> set (resting_orders side). o_trader_type r = ''MarketMaker'' \<longrightarrow> o_timestep r = 0)"

text \<open>Every handle of the roster points into the store; the ids and the types of the roster,
  in roster order.\<close>

definition handles_ok :: "market \<Rightarrow> bool" where
  "handles_ok m \<longleftrightarrow> (\<forall>a \<in> set (traders m). a < length (store m))"

definition roster_ids :: "market \<Rightarrow> int list" where
  "roster_ids m = map (\<lambda>a. get_id (store m ! a)) (traders m)"

definition roster_types :: "market \<Rightarrow> string list" where
  "roster_types m = map (\<lambda>a. get_type (store m ! a)) (traders m)"

definition three_types :: "string set" where
  "three_types = {''Monkey'', ''MeanReverter'', ''MomentumTrader''}"

text \<open>Two markets with the same roster of handles and the same id behind every handle.\<close>

definition same_roster :: "market \<Rightarrow> market \<Rightarrow> bool" where
  "same_roster m m' \<longleftrightarrow>
     traders m' = traders m \<and> map get_id (store m') = map get_id (store m)"

text \<open>The order of the levels: the keys of \<^verbatim>\<open>buys\<close> fall, the keys of \<^verbatim>\<open>sells\<close> rise,
  as the iteration order of the two maps has it.\<close>

definition book_sorted :: "market \<Rightarrow> bool" where
  "book_sorted m \<longleftrightarrow> sorted_wrt (>) (map fst (buys m)) \<and> sorted_wrt (<) (map fst (sells m))"

definition book_clean :: "market \<Rightarrow> bool" where
  "book_clean m \<longleftrightarrow> no_empty_level (buys m) \<and> no_empty_level (sells m)"

text \<open>\<^verbatim>\<open>Order{type, price, trader_id, timestep, trader_type, position_size}\<close>, and a trader
  as the constructors of init_traders.cpp build it.\<close>

abbreviation Order :: "string \<Rightarrow> real \<Rightarrow> int \<Rightarrow> int \<Rightarrow> string \<Rightarrow> real \<Rightarrow> order" where
  "Order ty p i ts tt sz \<equiv>
     \<lparr>o_type = ty, o_price = p, o_trader_id = i, o_timestep = ts, o_trader_type = tt,
      o_position_size = sz\<rparr>"

definition new_trader :: "int \<Rightarrow> strategy \<Rightarrow> trader" where
  "new_trader ident s =
     \<lparr>trader_id = ident, cash = 100000, position = 10, strategy = s, betsizer = Fractional (1 / 100) 1\<rparr>"

text \<open>Four traders (ids 0 to 3, one market maker with id 100000), an empty book, time step 3.\<close>

definition example_market :: market where
  "example_market =
     \<lparr>timestep = 3, market_price = 100, evolution_ticks = 2, evolve = True,
      kill_percentage = 1 / 2, write_every = 1, max_order_age = 5,
      trader_volume = Map.empty, total_trade_volume = 0, total_price_volume = 0,
      store = [new_trader 0 (MonkeyTrader (1 / 10)), new_trader 1 (MeanReverter 5 20),
               new_trader 2 (MomentumTrader 5 20), new_trader 3 (MonkeyTrader (1 / 10))],
      traders = [2, 0, 3, 1],
      market_makers = [\<lparr>mm_id = 100000, fundamental_price = 100, spread = 2\<rparr>],
      buys = [], sells = [], trade_history = [], tick_history = [],
      trader_map = [0 \<mapsto> 0, 1 \<mapsto> 1, 2 \<mapsto> 2, 3 \<mapsto> 3]\<rparr>"

text \<open>The same market at time step 4 with traders of different value; by value the ids rank
  2, 0, 3, 1.\<close>

definition ranked_market :: market where
  "ranked_market =
     example_market
       \<lparr>timestep := 4,
        store := [(new_trader 0 (MonkeyTrader (1 / 10)))\<lparr>cash := 100000\<rparr>,
                  (new_trader 1 (MeanReverter 5 20))\<lparr>cash := 50\<rparr>,
                  (new_trader 2 (MomentumTrader 5 20))\<lparr>cash := 200000\<rparr>,
                  (new_trader 3 (MonkeyTrader (1 / 10)))\<lparr>cash := 90000\<rparr>],
        traders := [1, 3, 2, 0]\<rparr>"

text \<open>A behaviour of the traders: the first trader of the roster buys one unit at the best ask,
  the others hold.\<close>

definition example_make_order :: make_order_fn where
  "example_make_order i t price best_bid best_ask history ts =
     (if i = 0 then Order ''BUY'' best_ask (trader_id t) ts (get_type t) 1
      else Order ''HOLD'' price (trader_id t) ts (get_type t) 0)"

text \<open>Two sell orders at one price, then two buy orders of 4 units each.\<close>

definition fifo_orders :: "order list" where
  "fifo_orders =
     [Order ''SELL'' 100 0 1 ''Monkey'' 10,
      Order ''SELL'' 100 1 2 ''MeanReverter'' 10,
      Order ''BUY'' 100 2 3 ''MomentumTrader'' 4,
      Order ''BUY'' 100 3 3 ''Monkey'' 4]"

section \<open>Termination of the matching loops\<close>

lemma order_count_simps:
  "order_count [] = 0"
  "order_count ((k, q) # rest) = length q + order_count rest"
  by (simp_all add: order_count_def)

lemma order_count_pop_front_Suc:
  "Suc (order_count (pop_front ((k, x # q) # rest))) = order_count ((k, x # q) # rest)"
  by (simp add: order_count_def)

lemma order_count_level_push:
  "order_count (level_push lt p ordr side) = Suc (order_count side)"
  by (induction side) (auto simp: order_count_def)

lemma buy_step_measure:
  assumes "buy_cond remaining_order m"
    and "buy_step ord remaining_order m = Inr (remaining_order', m')"
  shows "loop_measure remaining_order' (sells m') < loop_measure remaining_order (sells m)"
proof -
  from assms(1) have pos: "o_position_size remaining_order > 0"
    by (simp add: buy_cond_def)
  from assms(2) obtain k x q rest where side: "sells m = (k, x # q) # rest"
    by (auto simp: buy_step_def split: list.splits)
  have pop: "Suc (order_count (pop_front (sells m))) = order_count (sells m)"
    unfolding side by (rule order_count_pop_front_Suc)
  show ?thesis
    using assms(2) pos pop unfolding side buy_step_def loop_measure_def Let_def
    by (auto simp: order_count_level_push order_count_simps min_def split: if_splits)
qed

lemma sell_step_measure:
  assumes "sell_cond remaining_order m"
    and "sell_step ord remaining_order m = Inr (remaining_order', m')"
  shows "loop_measure remaining_order' (buys m') < loop_measure remaining_order (buys m)"
proof -
  from assms(1) have pos: "o_position_size remaining_order > 0"
    by (simp add: sell_cond_def)
  from assms(2) obtain k x q rest where side: "buys m = (k, x # q) # rest"
    by (auto simp: sell_step_def split: list.splits)
  have pop: "Suc (order_count (pop_front (buys m))) = order_count (buys m)"
    unfolding side by (rule order_count_pop_front_Suc)
  show ?thesis
    using assms(2) pos pop unfolding side sell_step_def loop_measure_def Let_def
    by (auto simp: order_count_level_push order_count_simps min_def split: if_splits)
qed

termination buy_loop
  by (relation "measure (\<lambda>(ord, remaining_order, m). loop_measure remaining_order (sells m))")
     (auto dest: buy_step_measure)

termination sell_loop
  by (relation "measure (\<lambda>(ord, remaining_order, m). loop_measure remaining_order (buys m))")
     (auto dest: sell_step_measure)

declare buy_loop.simps [simp del]

declare sell_loop.simps [simp del]

section \<open>Properties of the order book and of the matching loops\<close>

lemma no_empty_level_simps:
  "no_empty_level [] \<longleftrightarrow> True"
  "no_empty_level ((k, q) # rest) \<longleftrightarrow> q \<noteq> [] \<and> no_empty_level rest"
  by (auto simp: no_empty_level_def)

lemma no_empty_level_pop_front:
  "no_empty_level side \<Longrightarrow> no_empty_level (pop_front side)"
  by (cases side rule: pop_front.cases) (auto simp: no_empty_level_simps)

lemma no_empty_level_level_push:
  "no_empty_level side \<Longrightarrow> no_empty_level (level_push lt p ordr side)"
  by (induction side) (auto simp: no_empty_level_simps)

lemma no_empty_level_remove_mm_orders:
  "no_empty_level (remove_mm_orders side)"
  by (induction side rule: remove_mm_orders.induct) (auto simp: no_empty_level_simps Let_def)

lemma resting_orders_simps:
  "resting_orders [] = []"
  "resting_orders ((k, q) # rest) = q @ resting_orders rest"
  by (simp_all add: resting_orders_def)

lemma resting_orders_pop_front:
  "resting_orders ((k, r # q) # rest) = r # resting_orders (pop_front ((k, r # q) # rest))"
  by (simp add: resting_orders_simps)

lemma set_resting_orders_level_push:
  "set (resting_orders (level_push lt p ordr side)) = insert ordr (set (resting_orders side))"
  by (induction lt p ordr side rule: level_push.induct) (auto simp: resting_orders_simps split: if_splits)

lemma buy_step_discard:
  assumes "sells m = (k, r # q) # rest"
    and "o_trader_id remaining_order = o_trader_id r \<or> stale m r"
  shows "buy_step ord remaining_order m = Inr (remaining_order, m\<lparr>sells := pop_front (sells m)\<rparr>)"
  using assms by (auto simp: buy_step_def stale_def)

lemma sell_step_discard:
  assumes "buys m = (k, r # q) # rest"
    and "o_trader_id remaining_order = o_trader_id r \<or> stale m r"
  shows "sell_step ord remaining_order m = Inr (remaining_order, m\<lparr>buys := pop_front (buys m)\<rparr>)"
  using assms by (auto simp: sell_step_def stale_def)

lemma same_origin_refl: "same_origin r r"
  by (simp add: same_origin_def)

lemma same_origin_trans: "same_origin a b \<Longrightarrow> same_origin b c \<Longrightarrow> same_origin a c"
  by (simp add: same_origin_def)

lemma same_origin_size: "same_origin (r\<lparr>o_position_size := s\<rparr>) r"
  by (simp add: same_origin_def)

lemma stale_cong:
  "timestep m' = timestep m \<Longrightarrow> max_order_age m' = max_order_age m \<Longrightarrow> same_origin r' r \<Longrightarrow>
   stale m' r' = stale m r"
  by (simp add: stale_def same_origin_def)

lemma taker_buys_cong:
  "timestep m' = timestep m \<Longrightarrow> max_order_age m' = max_order_age m \<Longrightarrow>
   same_origin incoming' incoming \<Longrightarrow> same_origin r' r \<Longrightarrow>
   taker_buys m' incoming' r' t \<Longrightarrow> taker_buys m incoming r t"
  by (simp add: taker_buys_def stale_def same_origin_def)

lemma taker_sells_cong:
  "timestep m' = timestep m \<Longrightarrow> max_order_age m' = max_order_age m \<Longrightarrow>
   same_origin incoming' incoming \<Longrightarrow> same_origin r' r \<Longrightarrow>
   taker_sells m' incoming' r' t \<Longrightarrow> taker_sells m incoming r t"
  by (simp add: taker_sells_def stale_def same_origin_def)

lemma same_origin_subset:
  "A \<subseteq> B \<Longrightarrow> \<forall>r' \<in> A. \<exists>r \<in> B. same_origin r' r"
  using same_origin_refl by blast

lemma buy_progress_refl: "buy_progress incoming m incoming m"
  using same_origin_subset [of "set (resting_orders (sells m))" "set (resting_orders (sells m))"]
  by (simp add: buy_progress_def same_origin_refl)

lemma sell_progress_refl: "sell_progress incoming m incoming m"
  using same_origin_subset [of "set (resting_orders (buys m))" "set (resting_orders (buys m))"]
  by (simp add: sell_progress_def same_origin_refl)

lemma buy_progress_trans:
  assumes "buy_progress a m b m1" and "buy_progress b m1 c m2"
  shows "buy_progress a m c m2"
proof -
  from assms(1) obtain ts1 where
    o1: "same_origin b a" and t1: "timestep m1 = timestep m" and a1: "max_order_age m1 = max_order_age m"
    and b1: "buys m1 = buys m" and h1: "trade_history m1 = trade_history m @ ts1"
    and tr1: "\<forall>t \<in> set ts1. \<exists>r \<in> set (resting_orders (sells m)). taker_buys m a r t"
    and r1: "\<forall>r' \<in> set (resting_orders (sells m1)). \<exists>r \<in> set (resting_orders (sells m)). same_origin r' r"
    unfolding buy_progress_def by blast
  from assms(2) obtain ts2 where
    o2: "same_origin c b" and t2: "timestep m2 = timestep m1" and a2: "max_order_age m2 = max_order_age m1"
    and b2: "buys m2 = buys m1" and h2: "trade_history m2 = trade_history m1 @ ts2"
    and tr2: "\<forall>t \<in> set ts2. \<exists>r \<in> set (resting_orders (sells m1)). taker_buys m1 b r t"
    and r2: "\<forall>r' \<in> set (resting_orders (sells m2)). \<exists>r \<in> set (resting_orders (sells m1)). same_origin r' r"
    unfolding buy_progress_def by blast
  have tr: "\<forall>t \<in> set (ts1 @ ts2). \<exists>r \<in> set (resting_orders (sells m)). taker_buys m a r t"
  proof
    fix t assume "t \<in> set (ts1 @ ts2)"
    then consider "t \<in> set ts1" | "t \<in> set ts2" by auto
    then show "\<exists>r \<in> set (resting_orders (sells m)). taker_buys m a r t"
    proof cases
      case 1 with tr1 show ?thesis by blast
    next
      case 2
      with tr2 obtain r1 where "r1 \<in> set (resting_orders (sells m1))" "taker_buys m1 b r1 t" by blast
      moreover from this r1 obtain r where "r \<in> set (resting_orders (sells m))" "same_origin r1 r" by blast
      ultimately show ?thesis using taker_buys_cong [OF t1 a1 o1] by blast
    qed
  qed
  have rr: "\<forall>r' \<in> set (resting_orders (sells m2)). \<exists>r \<in> set (resting_orders (sells m)). same_origin r' r"
    using r1 r2 same_origin_trans by blast
  show ?thesis
    unfolding buy_progress_def
    using same_origin_trans [OF o2 o1] t1 t2 a1 a2 b1 b2 h1 h2 tr rr by auto
qed

lemma sell_progress_trans:
  assumes "sell_progress a m b m1" and "sell_progress b m1 c m2"
  shows "sell_progress a m c m2"
proof -
  from assms(1) obtain ts1 where
    o1: "same_origin b a" and t1: "timestep m1 = timestep m" and a1: "max_order_age m1 = max_order_age m"
    and b1: "sells m1 = sells m" and h1: "trade_history m1 = trade_history m @ ts1"
    and tr1: "\<forall>t \<in> set ts1. \<exists>r \<in> set (resting_orders (buys m)). taker_sells m a r t"
    and r1: "\<forall>r' \<in> set (resting_orders (buys m1)). \<exists>r \<in> set (resting_orders (buys m)). same_origin r' r"
    unfolding sell_progress_def by blast
  from assms(2) obtain ts2 where
    o2: "same_origin c b" and t2: "timestep m2 = timestep m1" and a2: "max_order_age m2 = max_order_age m1"
    and b2: "sells m2 = sells m1" and h2: "trade_history m2 = trade_history m1 @ ts2"
    and tr2: "\<forall>t \<in> set ts2. \<exists>r \<in> set (resting_orders (buys m1)). taker_sells m1 b r t"
    and r2: "\<forall>r' \<in> set (resting_orders (buys m2)). \<exists>r \<in> set (resting_orders (buys m1)). same_origin r' r"
    unfolding sell_progress_def by blast
  have tr: "\<forall>t \<in> set (ts1 @ ts2). \<exists>r \<in> set (resting_orders (buys m)). taker_sells m a r t"
  proof
    fix t assume "t \<in> set (ts1 @ ts2)"
    then consider "t \<in> set ts1" | "t \<in> set ts2" by auto
    then show "\<exists>r \<in> set (resting_orders (buys m)). taker_sells m a r t"
    proof cases
      case 1 with tr1 show ?thesis by blast
    next
      case 2
      with tr2 obtain r1 where "r1 \<in> set (resting_orders (buys m1))" "taker_sells m1 b r1 t" by blast
      moreover from this r1 obtain r where "r \<in> set (resting_orders (buys m))" "same_origin r1 r" by blast
      ultimately show ?thesis using taker_sells_cong [OF t1 a1 o1] by blast
    qed
  qed
  have rr: "\<forall>r' \<in> set (resting_orders (buys m2)). \<exists>r \<in> set (resting_orders (buys m)). same_origin r' r"
    using r1 r2 same_origin_trans by blast
  show ?thesis
    unfolding sell_progress_def
    using same_origin_trans [OF o2 o1] t1 t2 a1 a2 b1 b2 h1 h2 tr rr by auto
qed

lemma buy_step_progress:
  assumes "buy_step ord remaining_order m = Inr (remaining_order', m')"
  shows "buy_progress remaining_order m remaining_order' m'"
proof -
  from assms obtain k r q rest where side: "sells m = (k, r # q) # rest"
    by (auto simp: buy_step_def split: list.splits)
  have sub: "set (resting_orders (pop_front (sells m))) \<subseteq> set (resting_orders (sells m))"
    unfolding side by (auto simp: resting_orders_simps)
  have front: "r \<in> set (resting_orders (sells m))"
    unfolding side by (simp add: resting_orders_simps)
  show ?thesis
  proof (cases "o_trader_id remaining_order = o_trader_id r \<or> stale m r")
    case True
    from buy_step_discard [OF side True] assms
    have "remaining_order' = remaining_order" "m' = m\<lparr>sells := pop_front (sells m)\<rparr>" by simp_all
    then show ?thesis
      using same_origin_subset [OF sub] by (simp add: buy_progress_def same_origin_refl)
  next
    case False
    note step = assms [unfolded buy_step_def side Let_def]
    have f1: "same_origin remaining_order' remaining_order"
      using step False by (auto simp: stale_def same_origin_size)
    have f2: "timestep m' = timestep m \<and> max_order_age m' = max_order_age m \<and> buys m' = buys m"
      using step False by (auto simp: stale_def)
    have f3: "\<exists>t. trade_history m' = trade_history m @ [t] \<and> taker_buys m remaining_order r t"
      using step False by (auto simp: stale_def taker_buys_def)
    have f4': "sells m' =
        (if o_position_size r - min (o_position_size remaining_order) (o_position_size r) > 0
         then level_push (<) (o_price r)
                (r\<lparr>o_position_size :=
                     o_position_size r - min (o_position_size remaining_order) (o_position_size r)\<rparr>)
                (pop_front (sells m))
         else pop_front (sells m))"
      using step False unfolding side by (auto simp: stale_def)
    have f4: "sells m' = pop_front (sells m) \<or>
              (\<exists>s. sells m' = level_push (<) (o_price r) (r\<lparr>o_position_size := s\<rparr>) (pop_front (sells m)))"
    proof (cases "o_position_size r - min (o_position_size remaining_order) (o_position_size r) > 0")
      case True
      have "sells m' = level_push (<) (o_price r)
                (r\<lparr>o_position_size :=
                     o_position_size r - min (o_position_size remaining_order) (o_position_size r)\<rparr>)
                (pop_front (sells m))"
        unfolding f4' using True by (rule if_P)
      then show ?thesis by blast
    next
      case False
      have "sells m' = pop_front (sells m)"
        unfolding f4' using False by (rule if_not_P)
      then show ?thesis by blast
    qed
    have f5: "\<forall>r' \<in> set (resting_orders (sells m')). \<exists>r \<in> set (resting_orders (sells m)). same_origin r' r"
    proof
      fix r' assume r': "r' \<in> set (resting_orders (sells m'))"
      from f4 r' consider "r' \<in> set (resting_orders (pop_front (sells m)))"
        | s where "r' = r\<lparr>o_position_size := s\<rparr>"
        by (auto simp: set_resting_orders_level_push)
      then show "\<exists>r \<in> set (resting_orders (sells m)). same_origin r' r"
      proof cases
        case 1 with sub show ?thesis using same_origin_refl by blast
      next
        case 2 with front show ?thesis using same_origin_size by blast
      qed
    qed
    from f3 obtain t where "trade_history m' = trade_history m @ [t]" "taker_buys m remaining_order r t"
      by blast
    with front have f6: "\<exists>ts. trade_history m' = trade_history m @ ts \<and>
           (\<forall>t \<in> set ts. \<exists>r \<in> set (resting_orders (sells m)). taker_buys m remaining_order r t)"
      by (intro exI [of _ "[t]"]) auto
    show ?thesis
      unfolding buy_progress_def using f1 f2 f5 f6 by blast
  qed
qed

lemma sell_step_progress:
  assumes "sell_step ord remaining_order m = Inr (remaining_order', m')"
  shows "sell_progress remaining_order m remaining_order' m'"
proof -
  from assms obtain k r q rest where side: "buys m = (k, r # q) # rest"
    by (auto simp: sell_step_def split: list.splits)
  have sub: "set (resting_orders (pop_front (buys m))) \<subseteq> set (resting_orders (buys m))"
    unfolding side by (auto simp: resting_orders_simps)
  have front: "r \<in> set (resting_orders (buys m))"
    unfolding side by (simp add: resting_orders_simps)
  show ?thesis
  proof (cases "o_trader_id remaining_order = o_trader_id r \<or> stale m r")
    case True
    from sell_step_discard [OF side True] assms
    have "remaining_order' = remaining_order" "m' = m\<lparr>buys := pop_front (buys m)\<rparr>" by simp_all
    then show ?thesis
      using same_origin_subset [OF sub] by (simp add: sell_progress_def same_origin_refl)
  next
    case False
    note step = assms [unfolded sell_step_def side Let_def]
    have f1: "same_origin remaining_order' remaining_order"
      using step False by (auto simp: stale_def same_origin_size)
    have f2: "timestep m' = timestep m \<and> max_order_age m' = max_order_age m \<and> sells m' = sells m"
      using step False by (auto simp: stale_def)
    have f3: "\<exists>t. trade_history m' = trade_history m @ [t] \<and> taker_sells m remaining_order r t"
      using step False by (auto simp: stale_def taker_sells_def)
    have f4': "buys m' =
        (if o_position_size r - min (o_position_size remaining_order) (o_position_size r) > 0
         then level_push (>) (o_price r)
                (r\<lparr>o_position_size :=
                     o_position_size r - min (o_position_size remaining_order) (o_position_size r)\<rparr>)
                (pop_front (buys m))
         else pop_front (buys m))"
      using step False unfolding side by (auto simp: stale_def)
    have f4: "buys m' = pop_front (buys m) \<or>
              (\<exists>s. buys m' = level_push (>) (o_price r) (r\<lparr>o_position_size := s\<rparr>) (pop_front (buys m)))"
    proof (cases "o_position_size r - min (o_position_size remaining_order) (o_position_size r) > 0")
      case True
      have "buys m' = level_push (>) (o_price r)
                (r\<lparr>o_position_size :=
                     o_position_size r - min (o_position_size remaining_order) (o_position_size r)\<rparr>)
                (pop_front (buys m))"
        unfolding f4' using True by (rule if_P)
      then show ?thesis by blast
    next
      case False
      have "buys m' = pop_front (buys m)"
        unfolding f4' using False by (rule if_not_P)
      then show ?thesis by blast
    qed
    have f5: "\<forall>r' \<in> set (resting_orders (buys m')). \<exists>r \<in> set (resting_orders (buys m)). same_origin r' r"
    proof
      fix r' assume r': "r' \<in> set (resting_orders (buys m'))"
      from f4 r' consider "r' \<in> set (resting_orders (pop_front (buys m)))"
        | s where "r' = r\<lparr>o_position_size := s\<rparr>"
        by (auto simp: set_resting_orders_level_push)
      then show "\<exists>r \<in> set (resting_orders (buys m)). same_origin r' r"
      proof cases
        case 1 with sub show ?thesis using same_origin_refl by blast
      next
        case 2 with front show ?thesis using same_origin_size by blast
      qed
    qed
    from f3 obtain t where "trade_history m' = trade_history m @ [t]" "taker_sells m remaining_order r t"
      by blast
    with front have f6: "\<exists>ts. trade_history m' = trade_history m @ ts \<and>
           (\<forall>t \<in> set ts. \<exists>r \<in> set (resting_orders (buys m)). taker_sells m remaining_order r t)"
      by (intro exI [of _ "[t]"]) auto
    show ?thesis
      unfolding sell_progress_def using f1 f2 f5 f6 by blast
  qed
qed

lemma buy_loop_progress:
  "buy_loop ord remaining_order m = Inr (remaining_order', m') \<Longrightarrow>
   buy_progress remaining_order m remaining_order' m'"
proof (induction ord remaining_order m rule: buy_loop.induct)
  case (1 ord remaining_order m)
  show ?case
  proof (cases "buy_cond remaining_order m")
    case False
    with "1.prems" have "remaining_order' = remaining_order" "m' = m"
      by (simp_all add: buy_loop.simps)
    then show ?thesis by (simp add: buy_progress_refl)
  next
    case True
    with "1.prems" obtain r1 m1 where
      step: "buy_step ord remaining_order m = Inr (r1, m1)"
      and rest: "buy_loop ord r1 m1 = Inr (remaining_order', m')"
      by (auto simp: buy_loop.simps [of ord remaining_order m] split: sum.splits)
    from "1.IH" [OF True step refl rest] buy_step_progress [OF step]
    show ?thesis by (rule buy_progress_trans [rotated])
  qed
qed

lemma sell_loop_progress:
  "sell_loop ord remaining_order m = Inr (remaining_order', m') \<Longrightarrow>
   sell_progress remaining_order m remaining_order' m'"
proof (induction ord remaining_order m rule: sell_loop.induct)
  case (1 ord remaining_order m)
  show ?case
  proof (cases "sell_cond remaining_order m")
    case False
    with "1.prems" have "remaining_order' = remaining_order" "m' = m"
      by (simp_all add: sell_loop.simps)
    then show ?thesis by (simp add: sell_progress_refl)
  next
    case True
    with "1.prems" obtain r1 m1 where
      step: "sell_step ord remaining_order m = Inr (r1, m1)"
      and rest: "sell_loop ord r1 m1 = Inr (remaining_order', m')"
      by (auto simp: sell_loop.simps [of ord remaining_order m] split: sum.splits)
    from "1.IH" [OF True step refl rest] sell_step_progress [OF step]
    show ?thesis by (rule sell_progress_trans [rotated])
  qed
qed

lemma buy_step_clean:
  assumes "buy_cond remaining_order m" and "no_empty_level (sells m)"
  shows "\<exists>remaining_order' m'. buy_step ord remaining_order m = Inr (remaining_order', m') \<and>
           no_empty_level (sells m')"
proof -
  from assms obtain k r q rest where side: "sells m = (k, r # q) # rest"
    by (cases "sells m"; cases "snd (hd (sells m))") (auto simp: buy_cond_def no_empty_level_simps)
  have pop: "no_empty_level (pop_front (sells m))"
    using assms(2) by (rule no_empty_level_pop_front)
  show ?thesis
  proof (cases "o_trader_id remaining_order = o_trader_id r \<or> stale m r")
    case True
    from buy_step_discard [OF side True] pop show ?thesis by simp
  next
    case False
    then show ?thesis
      using pop no_empty_level_level_push [OF pop]
      by (simp add: buy_step_def side Let_def stale_def del: pop_front.simps)
  qed
qed

lemma buy_loop_clean:
  "no_empty_level (sells m) \<Longrightarrow>
   \<exists>remaining_order' m'. buy_loop ord remaining_order m = Inr (remaining_order', m') \<and>
      no_empty_level (sells m')"
proof (induction ord remaining_order m rule: buy_loop.induct)
  case (1 ord remaining_order m)
  show ?case
  proof (cases "buy_cond remaining_order m")
    case False
    with "1.prems" show ?thesis by (simp add: buy_loop.simps)
  next
    case True
    from buy_step_clean [OF True "1.prems"] obtain r1 m1 where
      step: "buy_step ord remaining_order m = Inr (r1, m1)" and clean: "no_empty_level (sells m1)"
      by blast
    from "1.IH" [OF True step refl clean] show ?thesis
      by (simp add: buy_loop.simps [of ord remaining_order m] True step)
  qed
qed

lemma sell_step_clean:
  assumes "sell_cond remaining_order m" and "no_empty_level (buys m)"
  shows "\<exists>remaining_order' m'. sell_step ord remaining_order m = Inr (remaining_order', m') \<and>
           no_empty_level (buys m')"
proof -
  from assms obtain k r q rest where side: "buys m = (k, r # q) # rest"
    by (cases "buys m"; cases "snd (hd (buys m))") (auto simp: sell_cond_def no_empty_level_simps)
  have pop: "no_empty_level (pop_front (buys m))"
    using assms(2) by (rule no_empty_level_pop_front)
  show ?thesis
  proof (cases "o_trader_id remaining_order = o_trader_id r \<or> stale m r")
    case True
    from sell_step_discard [OF side True] pop show ?thesis by simp
  next
    case False
    then show ?thesis
      using pop no_empty_level_level_push [OF pop]
      by (simp add: sell_step_def side Let_def stale_def del: pop_front.simps)
  qed
qed

lemma sell_loop_clean:
  "no_empty_level (buys m) \<Longrightarrow>
   \<exists>remaining_order' m'. sell_loop ord remaining_order m = Inr (remaining_order', m') \<and>
      no_empty_level (buys m')"
proof (induction ord remaining_order m rule: sell_loop.induct)
  case (1 ord remaining_order m)
  show ?case
  proof (cases "sell_cond remaining_order m")
    case False
    with "1.prems" show ?thesis by (simp add: sell_loop.simps)
  next
    case True
    from sell_step_clean [OF True "1.prems"] obtain r1 m1 where
      step: "sell_step ord remaining_order m = Inr (r1, m1)" and clean: "no_empty_level (buys m1)"
      by blast
    from "1.IH" [OF True step refl clean] show ?thesis
      by (simp add: sell_loop.simps [of ord remaining_order m] True step)
  qed
qed

text \<open>The trades one call of \<^verbatim>\<open>process_aggressive_order\<close> appends.\<close>

lemma process_buy_trades:
  assumes "o_type ord = ''BUY''" and "process_aggressive_order ord m = Inr m'"
  shows "\<exists>ts. trade_history m' = trade_history m @ ts \<and>
           (\<forall>t \<in> set ts. \<exists>r \<in> set (resting_orders (sells m)). taker_buys m ord r t)"
proof -
  from assms obtain r1 m1 where loop: "buy_loop ord ord m = Inr (r1, m1)"
    and m': "m' = (if o_position_size r1 > 0
                   then m1\<lparr>buys := level_push (>) (o_price r1) r1 (buys m1)\<rparr> else m1)"
    by (auto simp: process_aggressive_order_def split: sum.splits)
  from m' have "trade_history m' = trade_history m1" by simp
  with buy_loop_progress [OF loop] show ?thesis
    by (simp add: buy_progress_def)
qed

lemma process_sell_trades:
  assumes "o_type ord = ''SELL''" and "process_aggressive_order ord m = Inr m'"
  shows "\<exists>ts. trade_history m' = trade_history m @ ts \<and>
           (\<forall>t \<in> set ts. \<exists>r \<in> set (resting_orders (buys m)). taker_sells m ord r t)"
proof -
  from assms obtain r1 m1 where loop: "sell_loop ord ord m = Inr (r1, m1)"
    and m': "m' = (if o_position_size r1 > 0
                   then m1\<lparr>sells := level_push (<) (o_price r1) r1 (sells m1)\<rparr> else m1)"
    by (auto simp: process_aggressive_order_def split: sum.splits)
  from m' have "trade_history m' = trade_history m1" by simp
  with sell_loop_progress [OF loop] show ?thesis
    by (simp add: sell_progress_def)
qed

lemma process_hold:
  "o_type ord \<noteq> ''BUY'' \<Longrightarrow> o_type ord \<noteq> ''SELL'' \<Longrightarrow> process_aggressive_order ord m = Inr m"
  by (simp add: process_aggressive_order_def)

lemma buy_loop_discard:
  assumes "buy_cond remaining_order m" and "sells m = (k, r # q) # rest"
    and "o_trader_id remaining_order = o_trader_id r \<or> stale m r"
  shows "buy_loop ord remaining_order m = buy_loop ord remaining_order (m\<lparr>sells := pop_front (sells m)\<rparr>)"
  using assms(1) buy_step_discard [OF assms(2,3)]
  by (simp add: buy_loop.simps [of ord remaining_order m])

lemma sell_loop_discard:
  assumes "sell_cond remaining_order m" and "buys m = (k, r # q) # rest"
    and "o_trader_id remaining_order = o_trader_id r \<or> stale m r"
  shows "sell_loop ord remaining_order m = sell_loop ord remaining_order (m\<lparr>buys := pop_front (buys m)\<rparr>)"
  using assms(1) sell_step_discard [OF assms(2,3)]
  by (simp add: sell_loop.simps [of ord remaining_order m])

lemma buy_step_trade:
  assumes "sells m = (k, r # q) # rest"
    and "o_trader_id remaining_order \<noteq> o_trader_id r" and "\<not> stale m r"
  shows "buy_step ord remaining_order m =
     Inr (remaining_order\<lparr>o_position_size := o_position_size remaining_order -
              min (o_position_size remaining_order) (o_position_size r)\<rparr>,
          m\<lparr>trader_volume := add_volume (trader_volume m) (o_trader_type ord)
                (min (o_position_size remaining_order) (o_position_size r)),
            total_trade_volume := total_trade_volume m +
                min (o_position_size remaining_order) (o_position_size r),
            total_price_volume := total_price_volume m +
                o_price r * min (o_position_size remaining_order) (o_position_size r),
            store := ledger_update (trader_map m) (o_trader_id r) ''SELL'' (o_price r)
                (min (o_position_size remaining_order) (o_position_size r))
                (ledger_update (trader_map m) (o_trader_id remaining_order) ''BUY'' (o_price r)
                   (min (o_position_size remaining_order) (o_position_size r)) (store m)),
            trade_history := trade_history m @ [buy_trade m remaining_order r],
            market_price := o_price r,
            sells := (if o_position_size r - min (o_position_size remaining_order) (o_position_size r) > 0
                      then level_push (<) (o_price r)
                             (r\<lparr>o_position_size := o_position_size r -
                                  min (o_position_size remaining_order) (o_position_size r)\<rparr>)
                             (pop_front (sells m))
                      else pop_front (sells m))\<rparr>)"
  using assms by (simp add: buy_step_def Let_def stale_def buy_trade_def del: pop_front.simps)

lemma sell_step_trade:
  assumes "buys m = (k, r # q) # rest"
    and "o_trader_id remaining_order \<noteq> o_trader_id r" and "\<not> stale m r"
  shows "sell_step ord remaining_order m =
     Inr (remaining_order\<lparr>o_position_size := o_position_size remaining_order -
              min (o_position_size remaining_order) (o_position_size r)\<rparr>,
          m\<lparr>trader_volume := add_volume (trader_volume m) (o_trader_type ord)
                (min (o_position_size remaining_order) (o_position_size r)),
            total_trade_volume := total_trade_volume m +
                min (o_position_size remaining_order) (o_position_size r),
            total_price_volume := total_price_volume m +
                o_price r * min (o_position_size remaining_order) (o_position_size r),
            store := ledger_update (trader_map m) (o_trader_id remaining_order) ''SELL'' (o_price r)
                (min (o_position_size remaining_order) (o_position_size r))
                (ledger_update (trader_map m) (o_trader_id r) ''BUY'' (o_price r)
                   (min (o_position_size remaining_order) (o_position_size r)) (store m)),
            trade_history := trade_history m @ [sell_trade m remaining_order r],
            market_price := o_price r,
            buys := (if o_position_size r - min (o_position_size remaining_order) (o_position_size r) > 0
                     then level_push (>) (o_price r)
                            (r\<lparr>o_position_size := o_position_size r -
                                 min (o_position_size remaining_order) (o_position_size r)\<rparr>)
                            (pop_front (buys m))
                     else pop_front (buys m))\<rparr>)"
  using assms by (simp add: sell_step_def Let_def stale_def sell_trade_def del: pop_front.simps)

text \<open>A pass either discards the front order or appends the one trade against it.\<close>

lemma buy_step_history:
  assumes "sells m = (k, r # q) # rest" and "buy_step ord remaining_order m = Inr (remaining_order', m1)"
  shows "(trade_history m1 = trade_history m \<and> market_price m1 = market_price m \<and> store m1 = store m) \<or>
         (trade_history m1 = trade_history m @ [buy_trade m remaining_order r] \<and>
          market_price m1 = o_price r)"
proof (cases "o_trader_id remaining_order = o_trader_id r \<or> stale m r")
  case True
  from buy_step_discard [OF assms(1) True] assms(2) show ?thesis by auto
next
  case False
  then have "o_trader_id remaining_order \<noteq> o_trader_id r" "\<not> stale m r" by simp_all
  from buy_step_trade [OF assms(1) this] assms(2) show ?thesis by auto
qed

lemma sell_step_history:
  assumes "buys m = (k, r # q) # rest" and "sell_step ord remaining_order m = Inr (remaining_order', m1)"
  shows "(trade_history m1 = trade_history m \<and> market_price m1 = market_price m \<and> store m1 = store m) \<or>
         (trade_history m1 = trade_history m @ [sell_trade m remaining_order r] \<and>
          market_price m1 = o_price r)"
proof (cases "o_trader_id remaining_order = o_trader_id r \<or> stale m r")
  case True
  from sell_step_discard [OF assms(1) True] assms(2) show ?thesis by auto
next
  case False
  then have "o_trader_id remaining_order \<noteq> o_trader_id r" "\<not> stale m r" by simp_all
  from sell_step_trade [OF assms(1) this] assms(2) show ?thesis by auto
qed

lemma mm_origin_zero_same_origin:
  assumes "mm_origin_zero side"
    and "\<forall>r' \<in> set (resting_orders side'). \<exists>r \<in> set (resting_orders side). same_origin r' r"
  shows "mm_origin_zero side'"
  using assms unfolding mm_origin_zero_def same_origin_def by metis

lemma mm_origin_zero_level_push:
  assumes "mm_origin_zero side" and "o_trader_type ordr = ''MarketMaker'' \<longrightarrow> o_timestep ordr = 0"
  shows "mm_origin_zero (level_push lt p ordr side)"
  using assms by (auto simp: mm_origin_zero_def set_resting_orders_level_push)

lemma process_mm_origin_zero:
  assumes "mm_origin_zero (buys m)" and "mm_origin_zero (sells m)"
    and ord: "o_trader_type ord = ''MarketMaker'' \<longrightarrow> o_timestep ord = 0"
    and run: "process_aggressive_order ord m = Inr m'"
  shows "mm_origin_zero (buys m') \<and> mm_origin_zero (sells m')"
proof -
  consider "o_type ord = ''BUY''" | "o_type ord \<noteq> ''BUY''" "o_type ord = ''SELL''"
    | "o_type ord \<noteq> ''BUY''" "o_type ord \<noteq> ''SELL''" by blast
  then show ?thesis
  proof cases
    case 1
    with run obtain r1 m1 where loop: "buy_loop ord ord m = Inr (r1, m1)"
      and m': "m' = (if o_position_size r1 > 0
                     then m1\<lparr>buys := level_push (>) (o_price r1) r1 (buys m1)\<rparr> else m1)"
      by (auto simp: process_aggressive_order_def split: sum.splits)
    from buy_loop_progress [OF loop] have so: "same_origin r1 ord" and b: "buys m1 = buys m"
      and s: "\<forall>r' \<in> set (resting_orders (sells m1)). \<exists>r \<in> set (resting_orders (sells m)). same_origin r' r"
      by (simp_all add: buy_progress_def)
    from so ord have r1: "o_trader_type r1 = ''MarketMaker'' \<longrightarrow> o_timestep r1 = 0"
      by (simp add: same_origin_def)
    from assms(1) b have b1: "mm_origin_zero (buys m1)" by simp
    from mm_origin_zero_same_origin [OF assms(2) s] have s1: "mm_origin_zero (sells m1)" .
    from m' b1 s1 mm_origin_zero_level_push [OF b1 r1] show ?thesis by simp
  next
    case 2
    with run obtain r1 m1 where loop: "sell_loop ord ord m = Inr (r1, m1)"
      and m': "m' = (if o_position_size r1 > 0
                     then m1\<lparr>sells := level_push (<) (o_price r1) r1 (sells m1)\<rparr> else m1)"
      by (auto simp: process_aggressive_order_def split: sum.splits)
    from sell_loop_progress [OF loop] have so: "same_origin r1 ord" and b: "sells m1 = sells m"
      and s: "\<forall>r' \<in> set (resting_orders (buys m1)). \<exists>r \<in> set (resting_orders (buys m)). same_origin r' r"
      by (simp_all add: sell_progress_def)
    from so ord have r1: "o_trader_type r1 = ''MarketMaker'' \<longrightarrow> o_timestep r1 = 0"
      by (simp add: same_origin_def)
    from assms(2) b have b1: "mm_origin_zero (sells m1)" by simp
    from mm_origin_zero_same_origin [OF assms(1) s] have s1: "mm_origin_zero (buys m1)" .
    from m' b1 s1 mm_origin_zero_level_push [OF b1 r1] show ?thesis by simp
  next
    case 3
    with run assms(1,2) show ?thesis by (simp add: process_hold)
  qed
qed

lemma level_push_back_asc:
  "sorted_wrt (<) (map fst side) \<Longrightarrow>
   map_of (level_push (<) p ordr side) p =
     Some ((case map_of side p of None \<Rightarrow> [] | Some q \<Rightarrow> q) @ [ordr])"
proof (induction side)
  case Nil
  then show ?case by simp
next
  case (Cons lv side)
  obtain k q where lv: "lv = (k, q)" by (cases lv)
  from Cons.prems have above: "\<forall>x \<in> fst ` set side. k < x" and srt: "sorted_wrt (<) (map fst side)"
    by (auto simp: lv)
  show ?case
  proof (cases "p = k")
    case True
    then show ?thesis by (simp add: lv)
  next
    case False
    show ?thesis
    proof (cases "p < k")
      case True
      with above have "p \<notin> fst ` set side" by force
      then have "map_of side p = None" by (simp add: map_of_eq_None_iff)
      with True False show ?thesis by (simp add: lv)
    next
      case notless: False
      with False Cons.IH [OF srt] show ?thesis by (simp add: lv)
    qed
  qed
qed

lemma level_push_back_desc:
  "sorted_wrt (>) (map fst side) \<Longrightarrow>
   map_of (level_push (>) p ordr side) p =
     Some ((case map_of side p of None \<Rightarrow> [] | Some q \<Rightarrow> q) @ [ordr])"
proof (induction side)
  case Nil
  then show ?case by simp
next
  case (Cons lv side)
  obtain k q where lv: "lv = (k, q)" by (cases lv)
  from Cons.prems have above: "\<forall>x \<in> fst ` set side. k > x" and srt: "sorted_wrt (>) (map fst side)"
    by (auto simp: lv)
  show ?case
  proof (cases "p = k")
    case True
    then show ?thesis by (simp add: lv)
  next
    case False
    show ?thesis
    proof (cases "p > k")
      case True
      with above have "p \<notin> fst ` set side" by force
      then have "map_of side p = None" by (simp add: map_of_eq_None_iff)
      with True False show ?thesis by (simp add: lv)
    next
      case notless: False
      with False Cons.IH [OF srt] show ?thesis by (simp add: lv)
    qed
  qed
qed

lemma level_push_keys:
  "fst ` set (level_push lt p ordr side) = insert p (fst ` set side)"
proof (induction side)
  case Nil
  then show ?case by simp
next
  case (Cons lv side)
  obtain k q where lv: "lv = (k, q)" by (cases lv)
  have "fst ` set ((k, q) # level_push lt p ordr side) = insert k (fst ` set (level_push lt p ordr side))"
    by simp
  with Cons.IH show ?case
    by (simp add: lv insert_commute)
qed

lemma level_push_sorted_asc:
  "sorted_wrt (<) (map fst side) \<Longrightarrow> sorted_wrt (<) (map fst (level_push (<) p ordr side))"
proof (induction side)
  case Nil
  then show ?case by simp
next
  case (Cons lv side)
  obtain k q where lv: "lv = (k, q)" by (cases lv)
  from Cons.prems have above: "\<forall>x \<in> fst ` set side. k < x" and srt: "sorted_wrt (<) (map fst side)"
    by (auto simp: lv)
  from above have "\<not> p < k \<Longrightarrow> p \<noteq> k \<Longrightarrow> \<forall>x \<in> fst ` set (level_push (<) p ordr side). k < x"
    unfolding level_push_keys by auto
  with Cons.IH [OF srt] Cons.prems above show ?case
    by (auto simp: lv)
qed

lemma level_push_sorted_desc:
  "sorted_wrt (>) (map fst side) \<Longrightarrow> sorted_wrt (>) (map fst (level_push (>) p ordr side))"
proof (induction side)
  case Nil
  then show ?case by simp
next
  case (Cons lv side)
  obtain k q where lv: "lv = (k, q)" by (cases lv)
  from Cons.prems have above: "\<forall>x \<in> fst ` set side. k > x" and srt: "sorted_wrt (>) (map fst side)"
    by (auto simp: lv)
  from above have "\<not> p > k \<Longrightarrow> p \<noteq> k \<Longrightarrow> \<forall>x \<in> fst ` set (level_push (>) p ordr side). k > x"
    unfolding level_push_keys by auto
  with Cons.IH [OF srt] Cons.prems above show ?case
    by (auto simp: lv)
qed

lemma buy_loop_first_trade:
  assumes side: "sells m = (k, r # q) # rest" and c: "buy_cond remaining_order m"
    and ne: "o_trader_id remaining_order \<noteq> o_trader_id r" and ns: "\<not> stale m r"
    and run: "buy_loop ord remaining_order m = Inr (remaining_order', m')"
  shows "\<exists>ts. trade_history m' = trade_history m @ buy_trade m remaining_order r # ts"
proof -
  from c run obtain r1 m1 where step: "buy_step ord remaining_order m = Inr (r1, m1)"
    and rest: "buy_loop ord r1 m1 = Inr (remaining_order', m')"
    by (auto simp: buy_loop.simps [of ord remaining_order m] split: sum.splits)
  from buy_step_trade [OF side ne ns, of ord] step
  have "trade_history m1 = trade_history m @ [buy_trade m remaining_order r]" by auto
  moreover from buy_loop_progress [OF rest] obtain ts where "trade_history m' = trade_history m1 @ ts"
    by (auto simp: buy_progress_def)
  ultimately show ?thesis by simp
qed

lemma sell_loop_first_trade:
  assumes side: "buys m = (k, r # q) # rest" and c: "sell_cond remaining_order m"
    and ne: "o_trader_id remaining_order \<noteq> o_trader_id r" and ns: "\<not> stale m r"
    and run: "sell_loop ord remaining_order m = Inr (remaining_order', m')"
  shows "\<exists>ts. trade_history m' = trade_history m @ sell_trade m remaining_order r # ts"
proof -
  from c run obtain r1 m1 where step: "sell_step ord remaining_order m = Inr (r1, m1)"
    and rest: "sell_loop ord r1 m1 = Inr (remaining_order', m')"
    by (auto simp: sell_loop.simps [of ord remaining_order m] split: sum.splits)
  from sell_step_trade [OF side ne ns, of ord] step
  have "trade_history m1 = trade_history m @ [sell_trade m remaining_order r]" by auto
  moreover from sell_loop_progress [OF rest] obtain ts where "trade_history m' = trade_history m1 @ ts"
    by (auto simp: sell_progress_def)
  ultimately show ?thesis by simp
qed

lemma buy_step_partial_fill:
  assumes side: "sells m = (k, r # q) # rest" and "q \<noteq> []" and "k = o_price r"
    and ne: "o_trader_id remaining_order \<noteq> o_trader_id r" and ns: "\<not> stale m r"
    and part: "o_position_size remaining_order < o_position_size r"
  shows "\<exists>remaining_order' m'. buy_step ord remaining_order m = Inr (remaining_order', m') \<and>
           sells m' = (k, q @ [r\<lparr>o_position_size :=
                                   o_position_size r - o_position_size remaining_order\<rparr>]) # rest"
  using assms(2,3) part unfolding buy_step_trade [OF side ne ns] side
  by (cases q) (simp_all add: min_def)

lemma sell_step_partial_fill:
  assumes side: "buys m = (k, r # q) # rest" and "q \<noteq> []" and "k = o_price r"
    and ne: "o_trader_id remaining_order \<noteq> o_trader_id r" and ns: "\<not> stale m r"
    and part: "o_position_size remaining_order < o_position_size r"
  shows "\<exists>remaining_order' m'. sell_step ord remaining_order m = Inr (remaining_order', m') \<and>
           buys m' = (k, q @ [r\<lparr>o_position_size :=
                                  o_position_size r - o_position_size remaining_order\<rparr>]) # rest"
  using assms(2,3) part unfolding sell_step_trade [OF side ne ns] side
  by (cases q) (simp_all add: min_def)

lemma buy_step_store:
  assumes "sells m = (k, r # q) # rest" and "o_trader_id remaining_order \<noteq> o_trader_id r"
    and "\<not> stale m r" and "buy_step ord remaining_order m = Inr (remaining_order', m')"
  shows "store m' =
     ledger_update (trader_map m) (o_trader_id r) ''SELL'' (o_price r)
       (min (o_position_size remaining_order) (o_position_size r))
       (ledger_update (trader_map m) (o_trader_id remaining_order) ''BUY'' (o_price r)
          (min (o_position_size remaining_order) (o_position_size r)) (store m))"
  using assms(4) unfolding buy_step_trade [OF assms(1,2,3)] by auto

lemma sell_step_store:
  assumes "buys m = (k, r # q) # rest" and "o_trader_id remaining_order \<noteq> o_trader_id r"
    and "\<not> stale m r" and "sell_step ord remaining_order m = Inr (remaining_order', m')"
  shows "store m' =
     ledger_update (trader_map m) (o_trader_id remaining_order) ''SELL'' (o_price r)
       (min (o_position_size remaining_order) (o_position_size r))
       (ledger_update (trader_map m) (o_trader_id r) ''BUY'' (o_price r)
          (min (o_position_size remaining_order) (o_position_size r)) (store m))"
  using assms(4) unfolding sell_step_trade [OF assms(1,2,3)] by auto

section \<open>Properties of the roster and of evolution\<close>

lemma replace_first_ids:
  "get_id (st ! n) = ident \<Longrightarrow>
   map (\<lambda>a. get_id (st ! a)) (replace_first st ident n as) = map (\<lambda>a. get_id (st ! a)) as"
  by (induction as) auto

lemma replace_first_subset:
  "set (replace_first st ident n as) \<subseteq> insert n (set as)"
  by (induction as) auto

lemma replace_first_keep:
  "a \<in> set as \<Longrightarrow> get_id (st ! a) \<noteq> ident \<Longrightarrow> a \<in> set (replace_first st ident n as)"
  by (induction as) auto

lemma replace_trader_store:
  "store (replace_trader top_trader ident m) = store m @ [clone (store m ! top_trader) ident]"
  by (simp add: replace_trader_def Let_def)

lemma replace_trader_nth:
  "a < length (store m) \<Longrightarrow> store (replace_trader top_trader ident m) ! a = store m ! a"
  by (simp add: replace_trader_store nth_append)

lemma replace_trader_traders:
  "traders (replace_trader top_trader ident m) =
     replace_first (store (replace_trader top_trader ident m)) ident (length (store m)) (traders m)"
  by (simp add: replace_trader_def Let_def)

lemma replace_trader_handles_ok:
  assumes "handles_ok m"
  shows "handles_ok (replace_trader top_trader ident m)"
proof -
  have "set (traders (replace_trader top_trader ident m)) \<subseteq> insert (length (store m)) (set (traders m))"
    unfolding replace_trader_traders by (rule replace_first_subset)
  with assms show ?thesis
    unfolding handles_ok_def replace_trader_store by fastforce
qed

lemma replace_trader_roster_ids:
  assumes "handles_ok m"
  shows "roster_ids (replace_trader top_trader ident m) = roster_ids m"
proof -
  let ?m' = "replace_trader top_trader ident m"
  have new: "get_id (store ?m' ! length (store m)) = ident"
    by (simp add: replace_trader_store clone_def get_id_def)
  have "roster_ids ?m' = map (\<lambda>a. get_id (store ?m' ! a)) (traders m)"
    unfolding roster_ids_def replace_trader_traders using new by (rule replace_first_ids)
  also have "\<dots> = map (\<lambda>a. get_id (store m ! a)) (traders m)"
    using assms by (auto simp: handles_ok_def replace_trader_nth)
  finally show ?thesis by (simp add: roster_ids_def)
qed

lemma replace_trader_keep:
  assumes "a \<in> set (traders m)" and "a < length (store m)" and "get_id (store m ! a) \<noteq> ident"
  shows "a \<in> set (traders (replace_trader top_trader ident m)) \<and>
         a < length (store (replace_trader top_trader ident m)) \<and>
         store (replace_trader top_trader ident m) ! a = store m ! a"
proof -
  from assms(2) have same: "store (replace_trader top_trader ident m) ! a = store m ! a"
    by (rule replace_trader_nth)
  with assms(3) have "get_id (store (replace_trader top_trader ident m) ! a) \<noteq> ident" by simp
  with assms(1) have "a \<in> set (traders (replace_trader top_trader ident m))"
    unfolding replace_trader_traders by (rule replace_first_keep)
  with same assms(2) show ?thesis by (simp add: replace_trader_store)
qed

lemma fold_replace_roster:
  "handles_ok m \<Longrightarrow>
   handles_ok (fold (replace_trader top_trader) ids m) \<and>
   roster_ids (fold (replace_trader top_trader) ids m) = roster_ids m"
  by (induction ids arbitrary: m) (simp_all add: replace_trader_handles_ok replace_trader_roster_ids)

lemma fold_replace_keep:
  "a \<in> set (traders m) \<Longrightarrow> a < length (store m) \<Longrightarrow> get_id (store m ! a) \<notin> set ids \<Longrightarrow>
   a \<in> set (traders (fold (replace_trader top_trader) ids m)) \<and>
   store (fold (replace_trader top_trader) ids m) ! a = store m ! a"
proof (induction ids arbitrary: m)
  case Nil
  then show ?case by simp
next
  case (Cons i ids)
  from Cons.prems have "get_id (store m ! a) \<noteq> i" by auto
  from replace_trader_keep [OF Cons.prems(1,2) this, of top_trader]
  have k: "a \<in> set (traders (replace_trader top_trader i m))"
    "a < length (store (replace_trader top_trader i m))"
    "store (replace_trader top_trader i m) ! a = store m ! a" by simp_all
  from Cons.prems k(3) have "get_id (store (replace_trader top_trader i m) ! a) \<notin> set ids" by simp
  from Cons.IH [OF k(1,2) this] k(3) show ?case by simp
qed

lemma three_keys_all:
  assumes "distinct (map fst sv)" and "set (map fst sv) \<subseteq> three_types" and "length sv = 3"
  shows "set (map fst sv) = three_types"
proof -
  have "card (set (map fst sv)) = length (map fst sv)"
    using assms(1) by (rule distinct_card)
  with assms(3) have "card (set (map fst sv)) = 3" by simp
  moreover have "card three_types = 3" "finite three_types"
    by (simp_all add: three_types_def)
  ultimately show ?thesis
    using assms(2) by (simp add: card_subset_eq)
qed

lemma find_survivors_lookup:
  assumes "distinct (map fst sv)" and "set (map fst sv) \<subseteq> three_types" and "ty \<in> three_types"
  shows "map_of (find_survivors sv ts) ty =
     (case map_of sv ty of
        Some i \<Rightarrow> Some i
      | None \<Rightarrow> map_option get_id (find (\<lambda>t. get_type t = ty) ts))"
  using assms
proof (induction sv ts rule: find_survivors.induct)
  case (1 sv)
  then show ?case by (simp split: option.splits)
next
  case (2 sv t ts)
  let ?ty' = "get_type t"
  let ?sv' = "sv @ [(?ty', get_id t)]"
  show ?case
  proof (cases "?ty' \<in> three_types \<and> map_of sv ?ty' = None")
    case True
    then have fresh: "?ty' \<notin> fst ` set sv" by (simp add: map_of_eq_None_iff)
    with "2.prems" True have d': "distinct (map fst ?sv')" and s': "set (map fst ?sv') \<subseteq> three_types"
      by auto
    have look: "map_of ?sv' ty = (case map_of sv ty of Some i \<Rightarrow> Some i
        | None \<Rightarrow> if ty = ?ty' then Some (get_id t) else None)"
      by (simp add: map_add_def split: option.splits)
    show ?thesis
    proof (cases "length ?sv' = 3")
      case full: True
      from three_keys_all [OF d' s' full] "2.prems"(3) have "ty \<in> set (map fst ?sv')" by simp
      then have "ty = ?ty' \<or> map_of sv ty \<noteq> None"
        by (auto simp: map_of_eq_None_iff)
      moreover have "find_survivors sv (t # ts) = ?sv'"
        using True full by (simp add: three_types_def Let_def)
      ultimately show ?thesis
        using look by (auto split: option.splits)
    next
      case notfull: False
      have step: "find_survivors sv (t # ts) = find_survivors ?sv' ts"
        using True notfull by (simp add: three_types_def Let_def)
      have "map_of (find_survivors ?sv' ts) ty =
         (case map_of ?sv' ty of
            Some i \<Rightarrow> Some i
          | None \<Rightarrow> map_option get_id (find (\<lambda>t. get_type t = ty) ts))"
        using "2.IH"(1) [OF refl _ refl notfull d' s' "2.prems"(3)] True
        by (simp add: three_types_def)
      then show ?thesis
        unfolding step look by (auto split: option.splits)
    qed
  next
    case False
    have step: "find_survivors sv (t # ts) = find_survivors sv ts"
      using False by (auto simp: three_types_def Let_def)
    have "map_of (find_survivors sv ts) ty =
         (case map_of sv ty of
            Some i \<Rightarrow> Some i
          | None \<Rightarrow> map_option get_id (find (\<lambda>t. get_type t = ty) ts))"
      using "2.IH"(2) [OF refl _ "2.prems"] False by (simp add: three_types_def)
    moreover have "map_of sv ty = None \<Longrightarrow> get_type t \<noteq> ty"
      using False "2.prems"(3) by auto
    ultimately show ?thesis
      unfolding step by (auto split: option.splits)
  qed
qed

lemma mark_to_kill_marked:
  "i \<in> set (mark_to_kill sv kill_count killed ts) \<Longrightarrow>
   \<exists>t \<in> set ts. get_id t = i \<and> map_of sv (get_type t) \<noteq> Some i"
  by (induction sv kill_count killed ts rule: mark_to_kill.induct) (auto split: if_splits)

lemma get_id_update_position: "get_id (update_position side p q t) = get_id t"
  by (simp add: update_position_def get_id_def)

lemma ledger_update_ids:
  "map get_id (ledger_update tm ident side p q st) = map get_id st"
proof (cases "tm ident")
  case None
  then show ?thesis by (simp add: ledger_update_def)
next
  case (Some a)
  show ?thesis
  proof (cases "a < length st")
    case True
    then show ?thesis
      by (simp add: ledger_update_def Some map_update get_id_update_position list_update_same_conv)
  next
    case False
    then have "st[a := update_position side p q (st ! a)] = st"
      by (simp add: list_update_beyond)
    then show ?thesis by (simp add: ledger_update_def Some)
  qed
qed

lemma same_roster_refl: "same_roster m m"
  by (simp add: same_roster_def)

lemma same_roster_trans: "same_roster a b \<Longrightarrow> same_roster b c \<Longrightarrow> same_roster a c"
  by (simp add: same_roster_def)

lemma buy_step_roster:
  assumes "buy_step ord remaining_order m = Inr (remaining_order', m')"
  shows "same_roster m m'"
proof -
  from assms obtain k r q rest where side: "sells m = (k, r # q) # rest"
    by (auto simp: buy_step_def split: list.splits)
  show ?thesis
  proof (cases "o_trader_id remaining_order = o_trader_id r \<or> stale m r")
    case True
    from buy_step_discard [OF side True] assms show ?thesis
      by (auto simp: same_roster_def)
  next
    case False
    then have "o_trader_id remaining_order \<noteq> o_trader_id r" "\<not> stale m r" by simp_all
    from buy_step_trade [OF side this] assms show ?thesis
      by (auto simp: same_roster_def ledger_update_ids)
  qed
qed

lemma sell_step_roster:
  assumes "sell_step ord remaining_order m = Inr (remaining_order', m')"
  shows "same_roster m m'"
proof -
  from assms obtain k r q rest where side: "buys m = (k, r # q) # rest"
    by (auto simp: sell_step_def split: list.splits)
  show ?thesis
  proof (cases "o_trader_id remaining_order = o_trader_id r \<or> stale m r")
    case True
    from sell_step_discard [OF side True] assms show ?thesis
      by (auto simp: same_roster_def)
  next
    case False
    then have "o_trader_id remaining_order \<noteq> o_trader_id r" "\<not> stale m r" by simp_all
    from sell_step_trade [OF side this] assms show ?thesis
      by (auto simp: same_roster_def ledger_update_ids)
  qed
qed

lemma buy_loop_roster:
  "buy_loop ord remaining_order m = Inr (remaining_order', m') \<Longrightarrow> same_roster m m'"
proof (induction ord remaining_order m rule: buy_loop.induct)
  case (1 ord remaining_order m)
  show ?case
  proof (cases "buy_cond remaining_order m")
    case False
    with "1.prems" show ?thesis by (simp add: buy_loop.simps same_roster_refl)
  next
    case True
    with "1.prems" obtain r1 m1 where
      step: "buy_step ord remaining_order m = Inr (r1, m1)"
      and rest: "buy_loop ord r1 m1 = Inr (remaining_order', m')"
      by (auto simp: buy_loop.simps [of ord remaining_order m] split: sum.splits)
    from buy_step_roster [OF step] "1.IH" [OF True step refl rest]
    show ?thesis by (rule same_roster_trans)
  qed
qed

lemma sell_loop_roster:
  "sell_loop ord remaining_order m = Inr (remaining_order', m') \<Longrightarrow> same_roster m m'"
proof (induction ord remaining_order m rule: sell_loop.induct)
  case (1 ord remaining_order m)
  show ?case
  proof (cases "sell_cond remaining_order m")
    case False
    with "1.prems" show ?thesis by (simp add: sell_loop.simps same_roster_refl)
  next
    case True
    with "1.prems" obtain r1 m1 where
      step: "sell_step ord remaining_order m = Inr (r1, m1)"
      and rest: "sell_loop ord r1 m1 = Inr (remaining_order', m')"
      by (auto simp: sell_loop.simps [of ord remaining_order m] split: sum.splits)
    from sell_step_roster [OF step] "1.IH" [OF True step refl rest]
    show ?thesis by (rule same_roster_trans)
  qed
qed

lemma process_roster:
  assumes "process_aggressive_order ord m = Inr m'"
  shows "same_roster m m'"
proof -
  consider "o_type ord = ''BUY''" | "o_type ord \<noteq> ''BUY''" "o_type ord = ''SELL''"
    | "o_type ord \<noteq> ''BUY''" "o_type ord \<noteq> ''SELL''" by blast
  then show ?thesis
  proof cases
    case 1
    with assms obtain r1 m1 where loop: "buy_loop ord ord m = Inr (r1, m1)"
      and m': "traders m' = traders m1" "store m' = store m1"
      by (auto simp: process_aggressive_order_def split: sum.splits if_splits)
    from buy_loop_roster [OF loop] m' show ?thesis by (simp add: same_roster_def)
  next
    case 2
    with assms obtain r1 m1 where loop: "sell_loop ord ord m = Inr (r1, m1)"
      and m': "traders m' = traders m1" "store m' = store m1"
      by (auto simp: process_aggressive_order_def split: sum.splits if_splits)
    from sell_loop_roster [OF loop] m' show ?thesis by (simp add: same_roster_def)
  next
    case 3
    with assms show ?thesis by (simp add: process_hold same_roster_refl)
  qed
qed

lemma process_all_roster:
  "process_all ords m = Inr m' \<Longrightarrow> same_roster m m'"
proof (induction ords arbitrary: m)
  case Nil
  then show ?case by (simp add: same_roster_refl)
next
  case (Cons ordr ords)
  from Cons.prems obtain m1 where a: "process_aggressive_order ordr m = Inr m1"
    and b: "process_all ords m1 = Inr m'"
    by (auto split: sum.splits)
  from process_roster [OF a] Cons.IH [OF b] show ?case by (rule same_roster_trans)
qed

lemma maker_quotes_roster:
  "maker_quotes mms m = Inr m' \<Longrightarrow> same_roster m m'"
proof (induction mms arbitrary: m)
  case Nil
  then show ?case by (simp add: same_roster_refl)
next
  case (Cons mm mms)
  from Cons.prems obtain m1 where a: "process_all (quote mm (market_price m)) m = Inr m1"
    and b: "maker_quotes mms m1 = Inr m'"
    by (auto split: sum.splits)
  from process_all_roster [OF a] Cons.IH [OF b] show ?case by (rule same_roster_trans)
qed

lemma trader_orders_roster:
  "trader_orders make_order i as m = Inr m' \<Longrightarrow> same_roster m m'"
proof (induction as arbitrary: m i)
  case Nil
  then show ?case by (simp add: same_roster_refl)
next
  case (Cons a as)
  from Cons.prems obtain m1 where
    a: "process_aggressive_order
          (make_order i (store m ! a) (market_price m) (get_best_bid m) (get_best_ask m)
             (tick_history m) (timestep m)) m = Inr m1"
    and b: "trader_orders make_order (Suc i) as m1 = Inr m'"
    by (auto simp: Let_def split: sum.splits)
  from process_roster [OF a] Cons.IH [OF b] show ?case by (rule same_roster_trans)
qed

lemma same_roster_ids:
  assumes "same_roster m m'" and "handles_ok m"
  shows "handles_ok m' \<and> roster_ids m' = roster_ids m"
proof -
  from assms(1) have tr: "traders m' = traders m" and ids: "map get_id (store m') = map get_id (store m)"
    by (simp_all add: same_roster_def)
  from ids have len: "length (store m') = length (store m)"
    by (rule map_eq_imp_length_eq)
  have "get_id (store m' ! a) = get_id (store m ! a)" if "a \<in> set (traders m)" for a
  proof -
    from that assms(2) have "a < length (store m)" by (simp add: handles_ok_def)
    with len have "get_id (store m' ! a) = map get_id (store m') ! a"
      "get_id (store m ! a) = map get_id (store m) ! a" by simp_all
    with ids show ?thesis by simp
  qed
  then have "roster_ids m' = roster_ids m"
    by (simp add: roster_ids_def tr)
  moreover from assms(2) len tr have "handles_ok m'" by (simp add: handles_ok_def)
  ultimately show ?thesis by simp
qed

lemma evolve_with_roster:
  assumes "handles_ok m" and "evolve_with sorted_traders m = Inr m'"
  shows "handles_ok m' \<and> roster_ids m' = roster_ids m"
proof (cases "evolution_ticks m \<noteq> 0 \<and> timestep m smod evolution_ticks m = 0")
  case False
  with assms show ?thesis by (auto simp: evolve_with_def split: if_splits)
next
  case True
  with assms(2) obtain top_trader ids where "m' = fold (replace_trader top_trader) ids m"
    by (auto simp: evolve_with_def Let_def split: list.splits)
  with fold_replace_roster [OF assms(1)] show ?thesis by simp
qed

lemma replace_first_slot:
  "\<exists>i. replace_first st ident n as = as[i := n] \<and> (i < length as \<longrightarrow> get_id (st ! (as ! i)) = ident)"
proof (induction as)
  case Nil
  then show ?case by simp
next
  case (Cons a as)
  show ?case
  proof (cases "get_id (st ! a) = ident")
    case True
    then have "replace_first st ident n (a # as) = (a # as)[0 := n] \<and>
               (0 < length (a # as) \<longrightarrow> get_id (st ! ((a # as) ! 0)) = ident)"
      by simp
    then show ?thesis by blast
  next
    case False
    from Cons.IH obtain i where "replace_first st ident n as = as[i := n]"
      "i < length as \<longrightarrow> get_id (st ! (as ! i)) = ident" by blast
    with False have "replace_first st ident n (a # as) = (a # as)[Suc i := n] \<and>
               (Suc i < length (a # as) \<longrightarrow> get_id (st ! ((a # as) ! Suc i)) = ident)"
      by simp
    then show ?thesis by blast
  qed
qed

lemma tick_with_stages:
  assumes "tick_with srt make_order m = Inr m''"
  obtains m3 m4 m6 where
    "maker_quotes (market_makers m)
       ((clear_market_maker_orders (m\<lparr>trader_volume := Map.empty\<rparr>))
          \<lparr>total_trade_volume := 0, total_price_volume := 0\<rparr>) = Inr m3"
    and "trader_orders make_order 0 (traders m3) m3 = Inr m4"
    and "(if evolve m4
          then evolve_with (srt (m4\<lparr>timestep := timestep m4 + 1\<rparr>)) (m4\<lparr>timestep := timestep m4 + 1\<rparr>)
          else Inr (m4\<lparr>timestep := timestep m4 + 1\<rparr>)) = Inr m6"
    and "write_every m6 \<noteq> 0"
    and "m'' = m6\<lparr>tick_history := tick_history m6 @ [snapshot m6]\<rparr>"
proof -
  let ?m2 = "(clear_market_maker_orders (m\<lparr>trader_volume := Map.empty\<rparr>))
                 \<lparr>total_trade_volume := 0, total_price_volume := 0\<rparr>"
  have mm: "market_makers ?m2 = market_makers m"
    by (simp add: clear_market_maker_orders_def Let_def)
  note run = assms [unfolded tick_with_def Let_def mm]
  from run obtain m3 where q: "maker_quotes (market_makers m) ?m2 = Inr m3"
    by (cases "maker_quotes (market_makers m) ?m2") simp_all
  note run3 = run [unfolded q sum.case]
  from run3 obtain m4 where t: "trader_orders make_order 0 (traders m3) m3 = Inr m4"
    by (cases "trader_orders make_order 0 (traders m3) m3") simp_all
  note run4 = run3 [unfolded t sum.case]
  let ?m5 = "m4\<lparr>timestep := timestep m4 + 1\<rparr>"
  let ?e = "if evolve m4 then evolve_with (srt ?m5) ?m5 else Inr ?m5"
  have ev: "evolve ?m5 = evolve m4" by simp
  note run5 = run4 [unfolded ev]
  from run5 obtain m6 where e: "?e = Inr m6"
    by (cases ?e) simp_all
  note run6 = run5 [unfolded e sum.case]
  from run6 have w: "write_every m6 \<noteq> 0" and fin: "m'' = m6\<lparr>tick_history := tick_history m6 @ [snapshot m6]\<rparr>"
    by (simp_all split: if_splits)
  from q t e w fin show thesis by (rule that)
qed

lemma tick_with_roster:
  assumes "handles_ok m" and run: "tick_with srt make_order m = Inr m''"
  shows "handles_ok m'' \<and> roster_ids m'' = roster_ids m"
proof -
  let ?m2 = "(clear_market_maker_orders (m\<lparr>trader_volume := Map.empty\<rparr>))
                 \<lparr>total_trade_volume := 0, total_price_volume := 0\<rparr>"
  have r2: "same_roster m ?m2"
    by (simp add: same_roster_def clear_market_maker_orders_def Let_def)
  from run obtain m3 m4 m6 where
      q: "maker_quotes (market_makers m) ?m2 = Inr m3"
      and t: "trader_orders make_order 0 (traders m3) m3 = Inr m4"
      and e: "(if evolve m4
               then evolve_with (srt (m4\<lparr>timestep := timestep m4 + 1\<rparr>)) (m4\<lparr>timestep := timestep m4 + 1\<rparr>)
               else Inr (m4\<lparr>timestep := timestep m4 + 1\<rparr>)) = Inr m6"
      and fin: "m'' = m6\<lparr>tick_history := tick_history m6 @ [snapshot m6]\<rparr>"
    by (rule tick_with_stages)
  let ?m5 = "m4\<lparr>timestep := timestep m4 + 1\<rparr>"
  have "same_roster m4 ?m5" by (simp add: same_roster_def)
  with trader_orders_roster [OF t] have "same_roster m3 ?m5" by (rule same_roster_trans)
  with maker_quotes_roster [OF q] have "same_roster ?m2 ?m5" by (rule same_roster_trans)
  with r2 have "same_roster m ?m5" by (rule same_roster_trans)
  from same_roster_ids [OF this assms(1)] have h5: "handles_ok ?m5" "roster_ids ?m5 = roster_ids m"
    by simp_all
  have h6: "handles_ok m6 \<and> roster_ids m6 = roster_ids ?m5"
  proof (cases "evolve m4")
    case True
    with e have "evolve_with (srt ?m5) ?m5 = Inr m6" by (simp only: if_True)
    from h5(1) this show ?thesis by (rule evolve_with_roster)
  next
    case False
    with e have "Inr ?m5 = (Inr m6 :: fault + market)" by (simp only: if_False)
    then have "m6 = ?m5" by (simp only: sum.inject)
    with h5 show ?thesis by (simp only: simp_thms)
  qed
  have "traders m'' = traders m6" "store m'' = store m6"
    unfolding fin by simp_all
  then have "handles_ok m'' = handles_ok m6" "roster_ids m'' = roster_ids m6"
    by (simp_all only: handles_ok_def roster_ids_def)
  with h6 h5(2) show ?thesis by (simp only: simp_thms)
qed

lemma roster_ids_length_set:
  assumes "roster_ids a = roster_ids b"
  shows "length (traders a) = length (traders b) \<and> set (roster_ids a) = set (roster_ids b)"
proof -
  from assms have "length (roster_ids a) = length (roster_ids b)" by simp
  then have "length (traders a) = length (traders b)" by (simp add: roster_ids_def)
  with assms show ?thesis by simp
qed

lemma replace_trader_slot:
  assumes "handles_ok m"
  shows "\<exists>i. traders (replace_trader top_trader ident m) = (traders m)[i := length (store m)] \<and>
             (i < length (traders m) \<longrightarrow> get_id (store m ! (traders m ! i)) = ident)"
proof -
  from replace_first_slot [of "store (replace_trader top_trader ident m)" ident "length (store m)" "traders m"]
  obtain i where i: "traders (replace_trader top_trader ident m) = (traders m)[i := length (store m)]"
    "i < length (traders m) \<longrightarrow>
       get_id (store (replace_trader top_trader ident m) ! (traders m ! i)) = ident"
    unfolding replace_trader_traders by blast
  have "i < length (traders m) \<longrightarrow> get_id (store m ! (traders m ! i)) = ident"
  proof
    assume l: "i < length (traders m)"
    with assms have "traders m ! i < length (store m)" by (simp add: handles_ok_def)
    from replace_trader_nth [OF this, of top_trader ident] i(2) l
    show "get_id (store m ! (traders m ! i)) = ident"
      by simp
  qed
  with i(1) show ?thesis by blast
qed

text \<open>\<open>ranking\<close> is a result \<^verbatim>\<open>std::sort\<close> may give: a permutation of the roster in which no
  trader stands before one of greater value.\<close>

lemma mset_insert_ranked: "mset (insert_ranked v a bs) = add_mset a (mset bs)"
  by (induction bs) auto

lemma set_insert_ranked: "set (insert_ranked v a bs) = insert a (set bs)"
  by (induction bs) auto

lemma sorted_insert_ranked:
  "sorted_wrt (\<lambda>x y. v x \<ge> v y) bs \<Longrightarrow> sorted_wrt (\<lambda>x y. v x \<ge> v y) (insert_ranked v a bs)"
  by (induction bs) (auto simp: set_insert_ranked)

lemma mset_ranking: "mset (ranking m) = mset (traders m)"
proof -
  have "mset (foldr (insert_ranked v) as []) = mset as" for v and as :: "nat list"
    by (induction as) (simp_all add: mset_insert_ranked)
  then show ?thesis by (simp add: ranking_def)
qed

lemma set_ranking: "set (ranking m) = set (traders m)"
  using mset_ranking [of m] by (metis set_mset_mset)

lemma sorted_ranking:
  "sorted_wrt (\<lambda>a b. get_value (store m ! a) (market_price m) \<ge> get_value (store m ! b) (market_price m))
     (ranking m)"
proof -
  have "sorted_wrt (\<lambda>x y. v x \<ge> v y) (foldr (insert_ranked v) as [])" for v :: "nat \<Rightarrow> real" and as
    by (induction as) (simp_all add: sorted_insert_ranked)
  then show ?thesis by (simp add: ranking_def)
qed

section \<open>The book stays sorted and free of empty levels\<close>

lemma pop_front_sorted:
  "sorted_wrt lt (map fst side) \<Longrightarrow> sorted_wrt lt (map fst (pop_front side))"
  by (cases side rule: pop_front.cases) auto

lemma remove_mm_orders_keys:
  "fst ` set (remove_mm_orders side) \<subseteq> fst ` set side"
proof (induction side)
  case Nil
  then show ?case by simp
next
  case (Cons lv side)
  obtain k q where lv: "lv = (k, q)" by (cases lv)
  from Cons.IH show ?case
    by (auto simp: lv Let_def)
qed

lemma remove_mm_orders_sorted:
  "sorted_wrt lt (map fst side) \<Longrightarrow> sorted_wrt lt (map fst (remove_mm_orders side))"
proof (induction side)
  case Nil
  then show ?case by simp
next
  case (Cons lv side)
  obtain k q where lv: "lv = (k, q)" by (cases lv)
  from Cons.prems have above: "\<forall>x \<in> fst ` set side. lt k x" and srt: "sorted_wrt lt (map fst side)"
    by (auto simp: lv)
  from above remove_mm_orders_keys [of side] have "\<forall>x \<in> fst ` set (remove_mm_orders side). lt k x"
    by blast
  with Cons.IH [OF srt] show ?case by (auto simp: lv Let_def)
qed

lemma buy_step_sorted:
  assumes "buy_step ord remaining_order m = Inr (remaining_order', m')" and "book_sorted m"
  shows "book_sorted m'"
proof -
  from assms(1) obtain k r q rest where side: "sells m = (k, r # q) # rest"
    by (auto simp: buy_step_def split: list.splits)
  from assms(2) have popped: "sorted_wrt (<) (map fst (pop_front (sells m)))"
    by (simp add: book_sorted_def pop_front_sorted)
  show ?thesis
  proof (cases "o_trader_id remaining_order = o_trader_id r \<or> stale m r")
    case True
    from buy_step_discard [OF side True] assms popped show ?thesis
      by (auto simp: book_sorted_def)
  next
    case False
    then have "o_trader_id remaining_order \<noteq> o_trader_id r" "\<not> stale m r" by simp_all
    from buy_step_trade [OF side this, of ord] assms popped level_push_sorted_asc [OF popped]
    show ?thesis
      by (auto simp: book_sorted_def)
  qed
qed

lemma sell_step_sorted:
  assumes "sell_step ord remaining_order m = Inr (remaining_order', m')" and "book_sorted m"
  shows "book_sorted m'"
proof -
  from assms(1) obtain k r q rest where side: "buys m = (k, r # q) # rest"
    by (auto simp: sell_step_def split: list.splits)
  from assms(2) have popped: "sorted_wrt (>) (map fst (pop_front (buys m)))"
    by (simp add: book_sorted_def pop_front_sorted)
  show ?thesis
  proof (cases "o_trader_id remaining_order = o_trader_id r \<or> stale m r")
    case True
    from sell_step_discard [OF side True] assms popped show ?thesis
      by (auto simp: book_sorted_def)
  next
    case False
    then have "o_trader_id remaining_order \<noteq> o_trader_id r" "\<not> stale m r" by simp_all
    from sell_step_trade [OF side this, of ord] assms popped level_push_sorted_desc [OF popped]
    show ?thesis
      by (auto simp: book_sorted_def)
  qed
qed

lemma buy_loop_sorted:
  "buy_loop ord remaining_order m = Inr (remaining_order', m') \<Longrightarrow> book_sorted m \<Longrightarrow> book_sorted m'"
proof (induction ord remaining_order m rule: buy_loop.induct)
  case (1 ord remaining_order m)
  show ?case
  proof (cases "buy_cond remaining_order m")
    case False
    with "1.prems" show ?thesis by (simp add: buy_loop.simps)
  next
    case True
    with "1.prems" obtain r1 m1 where
      step: "buy_step ord remaining_order m = Inr (r1, m1)"
      and rest: "buy_loop ord r1 m1 = Inr (remaining_order', m')"
      by (auto simp: buy_loop.simps [of ord remaining_order m] split: sum.splits)
    from "1.IH" [OF True step refl rest] buy_step_sorted [OF step "1.prems"(2)]
    show ?thesis .
  qed
qed

lemma sell_loop_sorted:
  "sell_loop ord remaining_order m = Inr (remaining_order', m') \<Longrightarrow> book_sorted m \<Longrightarrow> book_sorted m'"
proof (induction ord remaining_order m rule: sell_loop.induct)
  case (1 ord remaining_order m)
  show ?case
  proof (cases "sell_cond remaining_order m")
    case False
    with "1.prems" show ?thesis by (simp add: sell_loop.simps)
  next
    case True
    with "1.prems" obtain r1 m1 where
      step: "sell_step ord remaining_order m = Inr (r1, m1)"
      and rest: "sell_loop ord r1 m1 = Inr (remaining_order', m')"
      by (auto simp: sell_loop.simps [of ord remaining_order m] split: sum.splits)
    from "1.IH" [OF True step refl rest] sell_step_sorted [OF step "1.prems"(2)]
    show ?thesis .
  qed
qed

lemma process_sorted:
  assumes "process_aggressive_order ord m = Inr m'" and "book_sorted m"
  shows "book_sorted m'"
proof -
  consider "o_type ord = ''BUY''" | "o_type ord \<noteq> ''BUY''" "o_type ord = ''SELL''"
    | "o_type ord \<noteq> ''BUY''" "o_type ord \<noteq> ''SELL''" by blast
  then show ?thesis
  proof cases
    case 1
    with assms(1) obtain r1 m1 where loop: "buy_loop ord ord m = Inr (r1, m1)"
      and m': "m' = (if o_position_size r1 > 0
                     then m1\<lparr>buys := level_push (>) (o_price r1) r1 (buys m1)\<rparr> else m1)"
      by (auto simp: process_aggressive_order_def split: sum.splits)
    from buy_loop_sorted [OF loop assms(2)] have s: "book_sorted m1" .
    then have "sorted_wrt (>) (map fst (level_push (>) (o_price r1) r1 (buys m1)))"
      by (simp add: book_sorted_def level_push_sorted_desc)
    with s m' show ?thesis by (simp add: book_sorted_def)
  next
    case 2
    with assms(1) obtain r1 m1 where loop: "sell_loop ord ord m = Inr (r1, m1)"
      and m': "m' = (if o_position_size r1 > 0
                     then m1\<lparr>sells := level_push (<) (o_price r1) r1 (sells m1)\<rparr> else m1)"
      by (auto simp: process_aggressive_order_def split: sum.splits)
    from sell_loop_sorted [OF loop assms(2)] have s: "book_sorted m1" .
    then have "sorted_wrt (<) (map fst (level_push (<) (o_price r1) r1 (sells m1)))"
      by (simp add: book_sorted_def level_push_sorted_asc)
    with s m' show ?thesis by (simp add: book_sorted_def)
  next
    case 3
    with assms show ?thesis by (simp add: process_hold)
  qed
qed

lemma clear_market_maker_orders_sorted:
  "book_sorted m \<Longrightarrow> book_sorted (clear_market_maker_orders m)"
  by (simp add: book_sorted_def clear_market_maker_orders_def Let_def remove_mm_orders_sorted)

lemma process_clean:
  assumes "book_clean m"
  shows "\<exists>m'. process_aggressive_order ord m = Inr m' \<and> book_clean m'"
proof -
  from assms have inv: "no_empty_level (buys m)" "no_empty_level (sells m)"
    by (simp_all add: book_clean_def)
  consider "o_type ord = ''BUY''" | "o_type ord \<noteq> ''BUY''" "o_type ord = ''SELL''"
    | "o_type ord \<noteq> ''BUY''" "o_type ord \<noteq> ''SELL''" by blast
  then show ?thesis
  proof cases
    case 1
    from inv buy_loop_clean [of m ord ord] obtain r1 m1 where
      loop: "buy_loop ord ord m = Inr (r1, m1)" and clean: "no_empty_level (sells m1)"
      by blast
    from buy_loop_progress [OF loop] have "buys m1 = buys m"
      by (simp add: buy_progress_def)
    with inv have b: "no_empty_level (buys m1)" by simp
    from 1 loop clean b no_empty_level_level_push [OF b] show ?thesis
      by (simp add: process_aggressive_order_def book_clean_def)
  next
    case 2
    from inv sell_loop_clean [of m ord ord] obtain r1 m1 where
      loop: "sell_loop ord ord m = Inr (r1, m1)" and clean: "no_empty_level (buys m1)"
      by blast
    from sell_loop_progress [OF loop] have "sells m1 = sells m"
      by (simp add: sell_progress_def)
    with inv have b: "no_empty_level (sells m1)" by simp
    from 2 loop clean b no_empty_level_level_push [OF b] show ?thesis
      by (simp add: process_aggressive_order_def book_clean_def)
  next
    case 3
    with assms show ?thesis by (simp add: process_hold)
  qed
qed

lemma process_all_clean:
  "book_clean m \<Longrightarrow> \<exists>m'. process_all ords m = Inr m' \<and> book_clean m'"
proof (induction ords arbitrary: m)
  case Nil
  then show ?case by simp
next
  case (Cons ordr ords)
  from process_clean [OF Cons.prems, of ordr] obtain m1 where
    a: "process_aggressive_order ordr m = Inr m1" and c: "book_clean m1" by blast
  from Cons.IH [OF c] a show ?case by simp
qed

lemma maker_quotes_clean:
  "book_clean m \<Longrightarrow> \<exists>m'. maker_quotes mms m = Inr m' \<and> book_clean m'"
proof (induction mms arbitrary: m)
  case Nil
  then show ?case by simp
next
  case (Cons mm mms)
  from process_all_clean [OF Cons.prems, of "quote mm (market_price m)"] obtain m1 where
    a: "process_all (quote mm (market_price m)) m = Inr m1" and c: "book_clean m1" by blast
  from Cons.IH [OF c] a show ?case by simp
qed

lemma trader_orders_clean:
  "book_clean m \<Longrightarrow> \<exists>m'. trader_orders make_order i as m = Inr m' \<and> book_clean m'"
proof (induction as arbitrary: m i)
  case Nil
  then show ?case by simp
next
  case (Cons a as)
  let ?o = "make_order i (store m ! a) (market_price m) (get_best_bid m) (get_best_ask m)
             (tick_history m) (timestep m)"
  from process_clean [OF Cons.prems, of ?o] obtain m1 where
    a: "process_aggressive_order ?o m = Inr m1" and c: "book_clean m1" by blast
  from Cons.IH [OF c, of "Suc i"] a show ?case by (simp add: Let_def)
qed

lemma replace_trader_book:
  "buys (replace_trader top_trader ident m) = buys m \<and>
   sells (replace_trader top_trader ident m) = sells m"
  by (simp add: replace_trader_def Let_def)

lemma fold_replace_book:
  "buys (fold (replace_trader top_trader) ids m) = buys m \<and>
   sells (fold (replace_trader top_trader) ids m) = sells m"
  by (induction ids arbitrary: m) (simp_all add: replace_trader_book)

lemma evolve_with_book:
  assumes "evolve_with sorted_traders m = Inr m'"
  shows "buys m' = buys m \<and> sells m' = sells m"
proof (cases "evolution_ticks m \<noteq> 0 \<and> timestep m smod evolution_ticks m = 0")
  case False
  with assms show ?thesis by (auto simp: evolve_with_def split: if_splits)
next
  case True
  with assms obtain top_trader ids where "m' = fold (replace_trader top_trader) ids m"
    by (auto simp: evolve_with_def Let_def split: list.splits)
  with fold_replace_book [of top_trader ids m] show ?thesis by simp
qed

lemma tick_with_clean:
  assumes "tick_with srt make_order m = Inr m'"
  shows "book_clean m'"
proof -
  let ?m2 = "(clear_market_maker_orders (m\<lparr>trader_volume := Map.empty\<rparr>))
                 \<lparr>total_trade_volume := 0, total_price_volume := 0\<rparr>"
  have c2: "book_clean ?m2"
    by (simp add: book_clean_def clear_market_maker_orders_def Let_def no_empty_level_remove_mm_orders)
  from assms obtain m3 m4 m6 where
      q: "maker_quotes (market_makers m) ?m2 = Inr m3"
      and t: "trader_orders make_order 0 (traders m3) m3 = Inr m4"
      and e: "(if evolve m4
               then evolve_with (srt (m4\<lparr>timestep := timestep m4 + 1\<rparr>)) (m4\<lparr>timestep := timestep m4 + 1\<rparr>)
               else Inr (m4\<lparr>timestep := timestep m4 + 1\<rparr>)) = Inr m6"
      and fin: "m' = m6\<lparr>tick_history := tick_history m6 @ [snapshot m6]\<rparr>"
    by (rule tick_with_stages)
  from maker_quotes_clean [OF c2, of "market_makers m"] q have c3: "book_clean m3" by simp
  from trader_orders_clean [OF c3, of make_order 0 "traders m3"] t have c4: "book_clean m4" by simp
  let ?m5 = "m4\<lparr>timestep := timestep m4 + 1\<rparr>"
  have "buys m6 = buys m4 \<and> sells m6 = sells m4"
  proof (cases "evolve m4")
    case True
    with e have "evolve_with (srt ?m5) ?m5 = Inr m6" by (simp only: if_True)
    from evolve_with_book [OF this] show ?thesis by simp
  next
    case False
    with e have "Inr ?m5 = (Inr m6 :: fault + market)" by (simp only: if_False)
    then have "m6 = ?m5" by (simp only: sum.inject)
    then show ?thesis by simp
  qed
  with c4 fin show ?thesis by (simp add: book_clean_def)
qed

section \<open>Evaluating the example states\<close>

lemmas engine_defs =
  process_aggressive_order_def buy_loop.simps sell_loop.simps buy_cond_def sell_cond_def
  buy_step_def sell_step_def Let_def ledger_update_def add_volume_def update_position_def
  example_market_def new_trader_def

lemmas evolution_defs =
  evolve_with_def ranking_def get_value_def cpp_round_def replace_trader_def clone_def
  get_type_def get_id_def ranked_market_def example_market_def new_trader_def Let_def
  roster_ids_def roster_types_def handles_ok_def three_types_def

lemma ranking_ranked_market: "ranking ranked_market = [2, 0, 3, 1]"
  by (simp add: evolution_defs)

lemma evolve_ranked_market:
  "\<exists>m'. evolve_with [2, 0, 3, 1] ranked_market = Inr m' \<and> traders m' = [1, 4, 2, 0] \<and>
     roster_ids m' = [1, 3, 2, 0] \<and>
     roster_types m' = [''MeanReverter'', ''MomentumTrader'', ''MomentumTrader'', ''Monkey'']"
  by (simp add: evolution_defs)

lemma tick_ranked_market:
  "\<exists>m'. tick_with ranking example_make_order (ranked_market\<lparr>timestep := 3\<rparr>) = Inr m' \<and>
     traders m' = [1, 4, 2, 0] \<and> timestep m' = 4 \<and>
     map (\<lambda>t. (buyer_id t, seller_id t, t_price t, t_quantity t)) (trade_history m') = [(1, 100000, 101, 1)]"
  by (simp add: tick_with_def clear_market_maker_orders_def quote_def snapshot_def
        get_best_bid_def get_best_ask_def example_make_order_def engine_defs evolution_defs)

section \<open>The properties of the specification\<close>

text \<open>
  C1. No self-trade. Every trade that one call of \<^verbatim>\<open>process_aggressive_order\<close> appends to
  the trade history has a buyer id different from its seller id. Whenever the loop is entered
  and the order at the front of the best opposite level has the owner of the incoming order,
  the pass pops that order and changes nothing else (the state after it is the state before
  with the one side popped: no trade, no ledger update, no entry in the trade history), and the
  loop goes on from there. This holds in the BUY and in the SELL branch.
\<close>

theorem no_self_trade:
  "(process_aggressive_order ord m = Inr m' \<longrightarrow>
      (\<exists>ts. trade_history m' = trade_history m @ ts \<and> (\<forall>t \<in> set ts. buyer_id t \<noteq> seller_id t))) \<and>
   (buy_cond remaining_order m \<and> sells m = (k, r # q) # rest \<and>
      o_trader_id remaining_order = o_trader_id r \<longrightarrow>
      buy_step ord remaining_order m = Inr (remaining_order, m\<lparr>sells := pop_front (sells m)\<rparr>) \<and>
      buy_loop ord remaining_order m =
        buy_loop ord remaining_order (m\<lparr>sells := pop_front (sells m)\<rparr>)) \<and>
   (sell_cond remaining_order m \<and> buys m = (k, r # q) # rest \<and>
      o_trader_id remaining_order = o_trader_id r \<longrightarrow>
      sell_step ord remaining_order m = Inr (remaining_order, m\<lparr>buys := pop_front (buys m)\<rparr>) \<and>
      sell_loop ord remaining_order m =
        sell_loop ord remaining_order (m\<lparr>buys := pop_front (buys m)\<rparr>))"
proof (intro conjI impI)
  assume run: "process_aggressive_order ord m = Inr m'"
  consider "o_type ord = ''BUY''" | "o_type ord = ''SELL''"
    | "o_type ord \<noteq> ''BUY''" "o_type ord \<noteq> ''SELL''" by blast
  then show "\<exists>ts. trade_history m' = trade_history m @ ts \<and> (\<forall>t \<in> set ts. buyer_id t \<noteq> seller_id t)"
  proof cases
    case 1
    from process_buy_trades [OF 1 run] show ?thesis
      unfolding taker_buys_def by metis
  next
    case 2
    from process_sell_trades [OF 2 run] show ?thesis
      unfolding taker_sells_def by metis
  next
    case 3
    with run have "m' = m" by (simp add: process_hold)
    then show ?thesis by simp
  qed
next
  assume a: "buy_cond remaining_order m \<and> sells m = (k, r # q) # rest \<and>
      o_trader_id remaining_order = o_trader_id r"
  then show "buy_step ord remaining_order m = Inr (remaining_order, m\<lparr>sells := pop_front (sells m)\<rparr>)"
    by (intro buy_step_discard [of m k r q rest]) simp_all
  from a show "buy_loop ord remaining_order m =
        buy_loop ord remaining_order (m\<lparr>sells := pop_front (sells m)\<rparr>)"
    by (intro buy_loop_discard [of _ m k r q rest]) simp_all
next
  assume a: "sell_cond remaining_order m \<and> buys m = (k, r # q) # rest \<and>
      o_trader_id remaining_order = o_trader_id r"
  then show "sell_step ord remaining_order m = Inr (remaining_order, m\<lparr>buys := pop_front (buys m)\<rparr>)"
    by (intro sell_step_discard [of m k r q rest]) simp_all
  from a show "sell_loop ord remaining_order m =
        sell_loop ord remaining_order (m\<lparr>buys := pop_front (buys m)\<rparr>)"
    by (intro sell_loop_discard [of _ m k r q rest]) simp_all
qed

theorem no_self_trade_witness:
  "(\<exists>m'. process_aggressive_order (Order ''SELL'' 99 2 3 ''MomentumTrader'' 5)
            (example_market\<lparr>buys := [(100, [Order ''BUY'' 100 1 3 ''MeanReverter'' 10])]\<rparr>) = Inr m' \<and>
         map (\<lambda>t. (buyer_id t, seller_id t)) (trade_history m') = [(1, 2)]) \<and>
   (\<exists>m'. process_aggressive_order (Order ''SELL'' 100 1 3 ''MeanReverter'' 10)
            (example_market\<lparr>buys := [(100, [Order ''BUY'' 100 1 3 ''MeanReverter'' 10])]\<rparr>) = Inr m' \<and>
         trade_history m' = [] \<and> buys m' = [] \<and> store m' = store example_market \<and>
         sells m' = [(100, [Order ''SELL'' 100 1 3 ''MeanReverter'' 10])])"
proof -
  let ?rest = "Order ''BUY'' 100 1 3 ''MeanReverter'' 10"
  let ?m = "example_market\<lparr>buys := [(100, [?rest])]\<rparr>"
  let ?o1 = "Order ''SELL'' 99 2 3 ''MomentumTrader'' 5"
  let ?o2 = "Order ''SELL'' 100 1 3 ''MeanReverter'' 10"
  obtain m1 where run1: "process_aggressive_order ?o1 ?m = Inr m1"
    and h1: "map (\<lambda>t. (buyer_id t, seller_id t)) (trade_history m1) = [(1, 2)]"
    by (simp add: engine_defs)
  have c: "sell_cond ?o2 ?m \<and> buys ?m = (100, ?rest # []) # [] \<and> o_trader_id ?o2 = o_trader_id ?rest"
    by (simp add: engine_defs)
  note T = no_self_trade [of ?o1 ?m m1 ?o2 100 ?rest "[]" "[]"]
  from T have "process_aggressive_order ?o1 ?m = Inr m1 \<longrightarrow>
      (\<exists>ts. trade_history m1 = trade_history ?m @ ts \<and> (\<forall>t \<in> set ts. buyer_id t \<noteq> seller_id t))"
    by (rule conjunct1)
  from this run1
  have t1: "\<exists>ts. trade_history m1 = trade_history ?m @ ts \<and> (\<forall>t \<in> set ts. buyer_id t \<noteq> seller_id t)"
    by (rule mp)
  note Tsell = T [THEN conjunct2, THEN conjunct2]
  from Tsell c have "sell_step ?o1 ?o2 ?m = Inr (?o2, ?m\<lparr>buys := pop_front (buys ?m)\<rparr>) \<and>
      sell_loop ?o1 ?o2 ?m = sell_loop ?o1 ?o2 (?m\<lparr>buys := pop_front (buys ?m)\<rparr>)"
    by (rule mp)
  then have s2: "sell_step ?o1 ?o2 ?m = Inr (?o2, ?m\<lparr>buys := []\<rparr>)"
    by simp
  obtain m2 where run2: "process_aggressive_order ?o2 ?m = Inr m2"
    and h2: "trade_history m2 = [] \<and> buys m2 = [] \<and> store m2 = store example_market \<and>
         sells m2 = [(100, [?o2])]"
    by (simp add: engine_defs)
  have p1: "\<exists>m'. process_aggressive_order ?o1 ?m = Inr m' \<and>
         map (\<lambda>t. (buyer_id t, seller_id t)) (trade_history m') = [(1, 2)]"
    using run1 h1 t1 by (intro exI [of _ m1] conjI)
  have p2: "\<exists>m'. process_aggressive_order ?o2 ?m = Inr m' \<and>
         trade_history m' = [] \<and> buys m' = [] \<and> store m' = store example_market \<and>
         sells m' = [(100, [?o2])]"
    using run2 h2 s2 by (intro exI [of _ m2] conjI) simp_all
  from p1 p2 show ?thesis by (rule conjI)
qed

text \<open>
  C2. Maker pricing. Every trade that one call of \<^verbatim>\<open>process_aggressive_order\<close> appends
  carries the price of a resting order of the opposite side whose owner is the trade's other
  party: of a resting sell order for an incoming BUY, of a resting buy order for an incoming
  SELL. Pass by pass: a pass of either loop appends no trade, or exactly one trade whose price
  is the price of the order at the front of the best opposite level, and sets the market price
  to it. The price of the incoming order only decides whether the loop is entered.
\<close>

theorem maker_pricing:
  "(process_aggressive_order ord m = Inr m' \<longrightarrow>
      (\<exists>ts. trade_history m' = trade_history m @ ts \<and>
         (\<forall>t \<in> set ts.
            (o_type ord = ''BUY'' \<and>
               (\<exists>r \<in> set (resting_orders (sells m)).
                  t_price t = o_price r \<and> seller_id t = o_trader_id r \<and>
                  buyer_id t = o_trader_id ord)) \<or>
            (o_type ord = ''SELL'' \<and>
               (\<exists>r \<in> set (resting_orders (buys m)).
                  t_price t = o_price r \<and> buyer_id t = o_trader_id r \<and>
                  seller_id t = o_trader_id ord))))) \<and>
   (sells m = (k, r # q) # rest \<and> buy_step ord remaining_order m = Inr (remaining_order', m1) \<longrightarrow>
      trade_history m1 = trade_history m \<or>
      (\<exists>t. trade_history m1 = trade_history m @ [t] \<and> t_price t = o_price r \<and>
           seller_id t = o_trader_id r \<and> market_price m1 = o_price r)) \<and>
   (buys m = (k, r # q) # rest \<and> sell_step ord remaining_order m = Inr (remaining_order', m1) \<longrightarrow>
      trade_history m1 = trade_history m \<or>
      (\<exists>t. trade_history m1 = trade_history m @ [t] \<and> t_price t = o_price r \<and>
           buyer_id t = o_trader_id r \<and> market_price m1 = o_price r))"
proof (intro conjI impI)
  assume run: "process_aggressive_order ord m = Inr m'"
  let ?goal = "\<exists>ts. trade_history m' = trade_history m @ ts \<and>
         (\<forall>t \<in> set ts.
            (o_type ord = ''BUY'' \<and>
               (\<exists>r \<in> set (resting_orders (sells m)).
                  t_price t = o_price r \<and> seller_id t = o_trader_id r \<and>
                  buyer_id t = o_trader_id ord)) \<or>
            (o_type ord = ''SELL'' \<and>
               (\<exists>r \<in> set (resting_orders (buys m)).
                  t_price t = o_price r \<and> buyer_id t = o_trader_id r \<and>
                  seller_id t = o_trader_id ord)))"
  consider "o_type ord = ''BUY''" | "o_type ord = ''SELL''"
    | "o_type ord \<noteq> ''BUY''" "o_type ord \<noteq> ''SELL''" by blast
  then show ?goal
  proof cases
    case 1
    from process_buy_trades [OF 1 run] obtain ts where
      h: "trade_history m' = trade_history m @ ts"
      and tr: "\<forall>t \<in> set ts. \<exists>r \<in> set (resting_orders (sells m)). taker_buys m ord r t"
      by blast
    from tr have "\<forall>t \<in> set ts. \<exists>r \<in> set (resting_orders (sells m)).
        t_price t = o_price r \<and> seller_id t = o_trader_id r \<and> buyer_id t = o_trader_id ord"
      unfolding taker_buys_def by blast
    with 1 h show ?thesis by blast
  next
    case 2
    from process_sell_trades [OF 2 run] obtain ts where
      h: "trade_history m' = trade_history m @ ts"
      and tr: "\<forall>t \<in> set ts. \<exists>r \<in> set (resting_orders (buys m)). taker_sells m ord r t"
      by blast
    from tr have "\<forall>t \<in> set ts. \<exists>r \<in> set (resting_orders (buys m)).
        t_price t = o_price r \<and> buyer_id t = o_trader_id r \<and> seller_id t = o_trader_id ord"
      unfolding taker_sells_def by blast
    with 2 h show ?thesis by blast
  next
    case 3
    with run have "m' = m" by (simp add: process_hold)
    then show ?thesis by simp
  qed
next
  assume a: "sells m = (k, r # q) # rest \<and> buy_step ord remaining_order m = Inr (remaining_order', m1)"
  from buy_step_history [OF conjunct1 [OF a] conjunct2 [OF a]]
  show "trade_history m1 = trade_history m \<or>
      (\<exists>t. trade_history m1 = trade_history m @ [t] \<and> t_price t = o_price r \<and>
           seller_id t = o_trader_id r \<and> market_price m1 = o_price r)"
    by (auto simp: buy_trade_def)
next
  assume a: "buys m = (k, r # q) # rest \<and> sell_step ord remaining_order m = Inr (remaining_order', m1)"
  from sell_step_history [OF conjunct1 [OF a] conjunct2 [OF a]]
  show "trade_history m1 = trade_history m \<or>
      (\<exists>t. trade_history m1 = trade_history m @ [t] \<and> t_price t = o_price r \<and>
           buyer_id t = o_trader_id r \<and> market_price m1 = o_price r)"
    by (auto simp: sell_trade_def)
qed

theorem maker_pricing_witness:
  "\<exists>m'. process_aggressive_order (Order ''SELL'' 99 2 3 ''MomentumTrader'' 5)
            (example_market\<lparr>buys := [(100, [Order ''BUY'' 100 1 3 ''MeanReverter'' 10])]\<rparr>) = Inr m' \<and>
         map (\<lambda>t. (t_price t, t_quantity t)) (trade_history m') = [(100, 5)] \<and>
         buys m' = [(100, [Order ''BUY'' 100 1 3 ''MeanReverter'' 5])] \<and> sells m' = [] \<and>
         market_price m' = 100"
proof -
  let ?rest = "Order ''BUY'' 100 1 3 ''MeanReverter'' 10"
  let ?m = "example_market\<lparr>buys := [(100, [?rest])]\<rparr>"
  let ?o1 = "Order ''SELL'' 99 2 3 ''MomentumTrader'' 5"
  obtain m1 where run1: "process_aggressive_order ?o1 ?m = Inr m1"
    and h1: "map (\<lambda>t. (t_price t, t_quantity t)) (trade_history m1) = [(100, 5)]"
       "buys m1 = [(100, [Order ''BUY'' 100 1 3 ''MeanReverter'' 5])]" "sells m1 = []"
       "market_price m1 = 100"
    by (simp add: engine_defs)
  obtain r1 m2 where step: "sell_step ?o1 ?o1 ?m = Inr (r1, m2)"
    by (simp add: engine_defs)
  have side: "buys ?m = (100, ?rest # []) # []" by simp
  note T = maker_pricing [of ?o1 ?m m1 100 ?rest "[]" "[]" ?o1 r1 m2]
  from T [THEN conjunct1] run1
  have "\<exists>ts. trade_history m1 = trade_history ?m @ ts \<and>
         (\<forall>t \<in> set ts.
            (o_type ?o1 = ''BUY'' \<and>
               (\<exists>r \<in> set (resting_orders (sells ?m)).
                  t_price t = o_price r \<and> seller_id t = o_trader_id r \<and>
                  buyer_id t = o_trader_id ?o1)) \<or>
            (o_type ?o1 = ''SELL'' \<and>
               (\<exists>r \<in> set (resting_orders (buys ?m)).
                  t_price t = o_price r \<and> buyer_id t = o_trader_id r \<and>
                  seller_id t = o_trader_id ?o1)))"
    by (rule mp)
  moreover from T [THEN conjunct2, THEN conjunct2] side step
  have "trade_history m2 = trade_history ?m \<or>
      (\<exists>t. trade_history m2 = trade_history ?m @ [t] \<and> t_price t = o_price ?rest \<and>
           buyer_id t = o_trader_id ?rest \<and> market_price m2 = o_price ?rest)"
    by blast
  ultimately show ?thesis
    using run1 h1 by (intro exI [of _ m1] conjI)
qed

text \<open>
  C3. Expiry. When the loop is entered and the order \<open>r\<close> at the front of the best opposite
  level has an origin time step with \<open>timestep > o_timestep r + max_order_age\<close>, the pass
  returns the incoming order as it was and the market with that one order popped: the trade
  history, the ledgers (the store) and the market price are those before the pass, and the
  loop goes on from there. Over a whole call: every trade appended is against a resting order
  that is not older than \<open>max_order_age\<close>.
\<close>

theorem stale_order_discarded:
  "(buy_cond remaining_order m \<and> sells m = (k, r # q) # rest \<and>
      timestep m > o_timestep r + max_order_age m \<longrightarrow>
      (\<exists>m1. buy_step ord remaining_order m = Inr (remaining_order, m1) \<and>
            m1 = m\<lparr>sells := pop_front (sells m)\<rparr> \<and>
            resting_orders (sells m) = r # resting_orders (sells m1) \<and>
            trade_history m1 = trade_history m \<and> store m1 = store m \<and>
            market_price m1 = market_price m \<and>
            buy_loop ord remaining_order m = buy_loop ord remaining_order m1)) \<and>
   (sell_cond remaining_order m \<and> buys m = (k, r # q) # rest \<and>
      timestep m > o_timestep r + max_order_age m \<longrightarrow>
      (\<exists>m1. sell_step ord remaining_order m = Inr (remaining_order, m1) \<and>
            m1 = m\<lparr>buys := pop_front (buys m)\<rparr> \<and>
            resting_orders (buys m) = r # resting_orders (buys m1) \<and>
            trade_history m1 = trade_history m \<and> store m1 = store m \<and>
            market_price m1 = market_price m \<and>
            sell_loop ord remaining_order m = sell_loop ord remaining_order m1)) \<and>
   (process_aggressive_order ord m = Inr m' \<longrightarrow>
      (\<exists>ts. trade_history m' = trade_history m @ ts \<and>
         (\<forall>t \<in> set ts.
            (o_type ord = ''BUY'' \<and>
               (\<exists>r \<in> set (resting_orders (sells m)).
                  seller_id t = o_trader_id r \<and> t_price t = o_price r \<and>
                  \<not> timestep m > o_timestep r + max_order_age m)) \<or>
            (o_type ord = ''SELL'' \<and>
               (\<exists>r \<in> set (resting_orders (buys m)).
                  buyer_id t = o_trader_id r \<and> t_price t = o_price r \<and>
                  \<not> timestep m > o_timestep r + max_order_age m)))))"
proof (intro conjI impI)
  assume a: "buy_cond remaining_order m \<and> sells m = (k, r # q) # rest \<and>
      timestep m > o_timestep r + max_order_age m"
  then have side: "sells m = (k, r # q) # rest" and st: "o_trader_id remaining_order = o_trader_id r \<or> stale m r"
    and c: "buy_cond remaining_order m"
    by (simp_all add: stale_def)
  have "resting_orders (sells m) = r # resting_orders (pop_front (sells m))"
    unfolding side by (rule resting_orders_pop_front)
  with buy_step_discard [OF side st] buy_loop_discard [OF c side st]
  show "\<exists>m1. buy_step ord remaining_order m = Inr (remaining_order, m1) \<and>
            m1 = m\<lparr>sells := pop_front (sells m)\<rparr> \<and>
            resting_orders (sells m) = r # resting_orders (sells m1) \<and>
            trade_history m1 = trade_history m \<and> store m1 = store m \<and>
            market_price m1 = market_price m \<and>
            buy_loop ord remaining_order m = buy_loop ord remaining_order m1"
    by simp
next
  assume a: "sell_cond remaining_order m \<and> buys m = (k, r # q) # rest \<and>
      timestep m > o_timestep r + max_order_age m"
  then have side: "buys m = (k, r # q) # rest" and st: "o_trader_id remaining_order = o_trader_id r \<or> stale m r"
    and c: "sell_cond remaining_order m"
    by (simp_all add: stale_def)
  have "resting_orders (buys m) = r # resting_orders (pop_front (buys m))"
    unfolding side by (rule resting_orders_pop_front)
  with sell_step_discard [OF side st] sell_loop_discard [OF c side st]
  show "\<exists>m1. sell_step ord remaining_order m = Inr (remaining_order, m1) \<and>
            m1 = m\<lparr>buys := pop_front (buys m)\<rparr> \<and>
            resting_orders (buys m) = r # resting_orders (buys m1) \<and>
            trade_history m1 = trade_history m \<and> store m1 = store m \<and>
            market_price m1 = market_price m \<and>
            sell_loop ord remaining_order m = sell_loop ord remaining_order m1"
    by simp
next
  assume run: "process_aggressive_order ord m = Inr m'"
  let ?goal = "\<exists>ts. trade_history m' = trade_history m @ ts \<and>
         (\<forall>t \<in> set ts.
            (o_type ord = ''BUY'' \<and>
               (\<exists>r \<in> set (resting_orders (sells m)).
                  seller_id t = o_trader_id r \<and> t_price t = o_price r \<and>
                  \<not> timestep m > o_timestep r + max_order_age m)) \<or>
            (o_type ord = ''SELL'' \<and>
               (\<exists>r \<in> set (resting_orders (buys m)).
                  buyer_id t = o_trader_id r \<and> t_price t = o_price r \<and>
                  \<not> timestep m > o_timestep r + max_order_age m)))"
  have stale_iff: "\<And>r. stale m r \<longleftrightarrow> timestep m > o_timestep r + max_order_age m"
    by (auto simp: stale_def)
  consider "o_type ord = ''BUY''" | "o_type ord = ''SELL''"
    | "o_type ord \<noteq> ''BUY''" "o_type ord \<noteq> ''SELL''" by blast
  then show ?goal
  proof cases
    case 1
    from process_buy_trades [OF 1 run] obtain ts where
      h: "trade_history m' = trade_history m @ ts"
      and tr: "\<forall>t \<in> set ts. \<exists>r \<in> set (resting_orders (sells m)). taker_buys m ord r t"
      by blast
    from tr have "\<forall>t \<in> set ts. \<exists>r \<in> set (resting_orders (sells m)).
        seller_id t = o_trader_id r \<and> t_price t = o_price r \<and>
        \<not> timestep m > o_timestep r + max_order_age m"
      unfolding taker_buys_def stale_iff by blast
    with 1 h show ?thesis by blast
  next
    case 2
    from process_sell_trades [OF 2 run] obtain ts where
      h: "trade_history m' = trade_history m @ ts"
      and tr: "\<forall>t \<in> set ts. \<exists>r \<in> set (resting_orders (buys m)). taker_sells m ord r t"
      by blast
    from tr have "\<forall>t \<in> set ts. \<exists>r \<in> set (resting_orders (buys m)).
        buyer_id t = o_trader_id r \<and> t_price t = o_price r \<and>
        \<not> timestep m > o_timestep r + max_order_age m"
      unfolding taker_sells_def stale_iff by blast
    with 2 h show ?thesis by blast
  next
    case 3
    with run have "m' = m" by (simp add: process_hold)
    then show ?thesis by simp
  qed
qed

theorem stale_order_discarded_witness:
  "\<exists>m'. process_aggressive_order (Order ''BUY'' 101 2 10 ''MomentumTrader'' 5)
          (example_market\<lparr>timestep := 10,
             sells := [(100, [Order ''SELL'' 100 1 3 ''MeanReverter'' 10])]\<rparr>) = Inr m' \<and>
        trade_history m' = [] \<and> sells m' = [] \<and> store m' = store example_market \<and>
        market_price m' = 100 \<and>
        buys m' = [(101, [Order ''BUY'' 101 2 10 ''MomentumTrader'' 5])]"
proof -
  let ?r = "Order ''SELL'' 100 1 3 ''MeanReverter'' 10"
  let ?m = "example_market\<lparr>timestep := 10, sells := [(100, [?r])]\<rparr>"
  let ?o = "Order ''BUY'' 101 2 10 ''MomentumTrader'' 5"
  have c: "buy_cond ?o ?m \<and> sells ?m = (100, ?r # []) # [] \<and>
           timestep ?m > o_timestep ?r + max_order_age ?m"
    by (simp add: engine_defs)
  note T = stale_order_discarded [where remaining_order = ?o and m = ?m and k = 100 and r = ?r
      and q = "[]" and rest = "[]" and ord = ?o]
  from T [THEN conjunct1] c
  have "\<exists>m1. buy_step ?o ?o ?m = Inr (?o, m1) \<and>
            m1 = ?m\<lparr>sells := pop_front (sells ?m)\<rparr> \<and>
            resting_orders (sells ?m) = ?r # resting_orders (sells m1) \<and>
            trade_history m1 = trade_history ?m \<and> store m1 = store ?m \<and>
            market_price m1 = market_price ?m \<and>
            buy_loop ?o ?o ?m = buy_loop ?o ?o m1"
    by (rule mp)
  then have loop: "buy_loop ?o ?o ?m = buy_loop ?o ?o (?m\<lparr>sells := []\<rparr>)"
    by simp
  have "buy_loop ?o ?o (?m\<lparr>sells := []\<rparr>) = Inr (?o, ?m\<lparr>sells := []\<rparr>)"
    by (simp add: engine_defs)
  with loop have "buy_loop ?o ?o ?m = Inr (?o, ?m\<lparr>sells := []\<rparr>)"
    by simp
  then show ?thesis
    by (simp add: process_aggressive_order_def example_market_def)
qed

text \<open>
  C4. Level cleanliness. After \<^verbatim>\<open>clear_market_maker_orders\<close> no level of either side has
  an empty queue, whatever the book was before. When no level of either side is empty,
  \<^verbatim>\<open>process_aggressive_order\<close> returns (it never reads the front of an empty queue) and
  leaves no empty level on either side. A tick starts with \<^verbatim>\<open>clear_market_maker_orders\<close>, so
  the book it leaves has no empty level.
\<close>

theorem level_cleanliness:
  "no_empty_level (buys (clear_market_maker_orders m)) \<and>
   no_empty_level (sells (clear_market_maker_orders m)) \<and>
   (no_empty_level (buys m) \<and> no_empty_level (sells m) \<longrightarrow>
      (\<exists>m'. process_aggressive_order ord m = Inr m' \<and>
            no_empty_level (buys m') \<and> no_empty_level (sells m'))) \<and>
   (tick_with srt make_order m = Inr m'' \<longrightarrow>
      no_empty_level (buys m'') \<and> no_empty_level (sells m''))"
proof -
  have p1: "no_empty_level (buys (clear_market_maker_orders m))"
    by (simp add: clear_market_maker_orders_def Let_def no_empty_level_remove_mm_orders)
  have p2: "no_empty_level (sells (clear_market_maker_orders m))"
    by (simp add: clear_market_maker_orders_def Let_def no_empty_level_remove_mm_orders)
  have p3: "no_empty_level (buys m) \<and> no_empty_level (sells m) \<longrightarrow>
      (\<exists>m'. process_aggressive_order ord m = Inr m' \<and>
            no_empty_level (buys m') \<and> no_empty_level (sells m'))"
    using process_clean [of m ord] by (simp add: book_clean_def)
  have p4: "tick_with srt make_order m = Inr m'' \<longrightarrow>
      no_empty_level (buys m'') \<and> no_empty_level (sells m'')"
    using tick_with_clean [of srt make_order m m''] by (simp add: book_clean_def)
  show ?thesis
    by (intro conjI; (rule p1 | rule p2 | rule p3 | rule p4))
qed

theorem level_cleanliness_witness:
  "\<exists>m'. process_aggressive_order (Order ''BUY'' 101 2 3 ''MomentumTrader'' 15)
          (example_market\<lparr>sells := [(100, [Order ''SELL'' 100 1 3 ''MeanReverter'' 10]),
                                    (102, [Order ''SELL'' 102 0 3 ''Monkey'' 1])]\<rparr>) = Inr m' \<and>
        sells m' = [(102, [Order ''SELL'' 102 0 3 ''Monkey'' 1])] \<and>
        buys m' = [(101, [Order ''BUY'' 101 2 3 ''MomentumTrader'' 5])] \<and>
        no_empty_level (buys m') \<and> no_empty_level (sells m')"
proof -
  let ?m = "example_market\<lparr>sells := [(100, [Order ''SELL'' 100 1 3 ''MeanReverter'' 10]),
                                    (102, [Order ''SELL'' 102 0 3 ''Monkey'' 1])]\<rparr>"
  let ?o = "Order ''BUY'' 101 2 3 ''MomentumTrader'' 15"
  have inv: "no_empty_level (buys ?m) \<and> no_empty_level (sells ?m)"
    by (simp add: no_empty_level_simps example_market_def)
  from level_cleanliness [of ?m ?o, THEN conjunct2, THEN conjunct2, THEN conjunct1] inv
  obtain m' where run: "process_aggressive_order ?o ?m = Inr m'"
    and clean: "no_empty_level (buys m')" "no_empty_level (sells m')"
    by blast
  have "\<exists>m1. process_aggressive_order ?o ?m = Inr m1 \<and>
        sells m1 = [(102, [Order ''SELL'' 102 0 3 ''Monkey'' 1])] \<and>
        buys m1 = [(101, [Order ''BUY'' 101 2 3 ''MomentumTrader'' 5])]"
    by (simp add: engine_defs)
  with run clean show ?thesis by auto
qed

text \<open>
  C5. Evolution diversity floor. Let the handles of the roster be valid, the ids of the roster
  pairwise different (as \<^verbatim>\<open>init_traders\<close> makes them), the sorted copy hold exactly the
  handles of the roster, and the roster hold at least one trader of each of the three types.
  Then \<^verbatim>\<open>evolve_traders\<close> (with a period other than 0) returns a market whose roster still
  holds at least one trader of each of the three types. For each type, the first trader of
  that type in the ranking is the one entered in \<^verbatim>\<open>survivor_ids\<close>, and its id is never in
  \<^verbatim>\<open>to_kill\<close>, for every kill count. No bound on \<^verbatim>\<open>kill_percentage\<close> is needed.
\<close>

theorem evolution_diversity:
  assumes "handles_ok m" and "distinct (roster_ids m)"
    and "set sorted_traders = set (traders m)"
    and "three_types \<subseteq> set (roster_types m)"
    and "evolution_ticks m \<noteq> 0"
  shows "(\<exists>m'. evolve_with sorted_traders m = Inr m' \<and> three_types \<subseteq> set (roster_types m')) \<and>
         (\<forall>ty \<in> three_types.
            \<exists>t. find (\<lambda>t. get_type t = ty) (map (\<lambda>a. store m ! a) sorted_traders) = Some t \<and>
                map_of (find_survivors [] (map (\<lambda>a. store m ! a) sorted_traders)) ty = Some (get_id t) \<and>
                get_id t \<notin> set (mark_to_kill (find_survivors [] (map (\<lambda>a. store m ! a) sorted_traders))
                                   kill_count 0 (rev (map (\<lambda>a. store m ! a) sorted_traders))))"
proof -
  let ?objs = "map (\<lambda>a. store m ! a) sorted_traders"
  let ?sv = "find_survivors [] ?objs"
  have set_objs: "set ?objs = (\<lambda>a. store m ! a) ` set (traders m)"
    using assms(3) by simp
  have "inj_on (\<lambda>a. get_id (store m ! a)) (set (traders m))"
    using assms(2) by (simp add: roster_ids_def distinct_map)
  then have inj: "inj_on get_id ((\<lambda>a. store m ! a) ` set (traders m))"
    by (intro inj_on_imageI) (simp add: comp_def)
  have present: "\<exists>t \<in> set ?objs. get_type t = ty" if "ty \<in> three_types" for ty
  proof -
    from that assms(4) have "ty \<in> set (roster_types m)" by blast
    then show ?thesis unfolding set_objs by (auto simp: roster_types_def)
  qed
  have prot: "\<exists>t \<in> set ?objs. get_type t = ty \<and>
                find (\<lambda>t. get_type t = ty) ?objs = Some t \<and>
                map_of ?sv ty = Some (get_id t) \<and>
                get_id t \<notin> set (mark_to_kill ?sv kc 0 (rev ?objs))"
    if ty: "ty \<in> three_types" for ty kc
  proof -
    from present [OF ty] obtain t0 where f: "find (\<lambda>t. get_type t = ty) ?objs = Some t0"
      by (cases "find (\<lambda>t. get_type t = ty) ?objs") (auto simp: find_None_iff)
    then have t0: "t0 \<in> set ?objs" "get_type t0 = ty"
      by (auto simp: find_Some_iff)
    have sv: "map_of ?sv ty = Some (get_id t0)"
      using find_survivors_lookup [of "[]" ty ?objs] ty f by simp
    have "get_id t0 \<notin> set (mark_to_kill ?sv kc 0 (rev ?objs))"
    proof
      assume "get_id t0 \<in> set (mark_to_kill ?sv kc 0 (rev ?objs))"
      from mark_to_kill_marked [OF this] obtain t where
        t: "t \<in> set ?objs" "get_id t = get_id t0"
        and no: "map_of ?sv (get_type t) \<noteq> Some (get_id t0)"
        by auto
      from inj t t0(1) have "t = t0" unfolding set_objs by (auto dest: inj_onD)
      with no sv t0(2) show False by simp
    qed
    with f sv t0 show ?thesis by blast
  qed
  have part2: "\<forall>ty \<in> three_types.
            \<exists>t. find (\<lambda>t. get_type t = ty) ?objs = Some t \<and>
                map_of ?sv ty = Some (get_id t) \<and>
                get_id t \<notin> set (mark_to_kill ?sv kill_count 0 (rev ?objs))"
    using prot by blast
  have part1: "\<exists>m'. evolve_with sorted_traders m = Inr m' \<and> three_types \<subseteq> set (roster_types m')"
  proof (cases "timestep m smod evolution_ticks m = 0")
    case False
    with assms(4,5) show ?thesis by (simp add: evolve_with_def)
  next
    case True
    have "''Monkey'' \<in> three_types" by (simp add: three_types_def)
    from present [OF this] obtain top_trader rest where srt: "sorted_traders = top_trader # rest"
      by (cases sorted_traders) auto
    let ?kc = "cpp_round (real (length sorted_traders) * kill_percentage m)"
    let ?kill = "mark_to_kill ?sv ?kc 0 (rev ?objs)"
    let ?m' = "fold (replace_trader top_trader) ?kill m"
    have run: "evolve_with sorted_traders m = Inr ?m'"
      using True assms(5) by (simp add: evolve_with_def Let_def srt)
    have "ty \<in> set (roster_types ?m')" if ty: "ty \<in> three_types" for ty
    proof -
      from prot [OF ty, of ?kc] obtain t where
        t: "t \<in> set ?objs" "get_type t = ty" "get_id t \<notin> set ?kill" by blast
      from t(1) obtain a where a: "a \<in> set (traders m)" "t = store m ! a"
        unfolding set_objs by blast
      from a(1) assms(1) have "a < length (store m)" by (simp add: handles_ok_def)
      from fold_replace_keep [OF a(1) this, of ?kill top_trader] t(3) a(2)
      have "a \<in> set (traders ?m')" "store ?m' ! a = t" by simp_all
      with t(2) show ?thesis by (force simp: roster_types_def)
    qed
    with run show ?thesis by blast
  qed
  from part1 part2 show ?thesis by (rule conjI)
qed

theorem evolution_diversity_witness:
  "\<exists>m'. evolve_with (ranking ranked_market) ranked_market = Inr m' \<and>
        roster_types ranked_market = [''MeanReverter'', ''Monkey'', ''MomentumTrader'', ''Monkey''] \<and>
        roster_types m' = [''MeanReverter'', ''MomentumTrader'', ''MomentumTrader'', ''Monkey''] \<and>
        three_types \<subseteq> set (roster_types m')"
proof -
  have h1: "handles_ok ranked_market" and h2: "distinct (roster_ids ranked_market)"
    and h4: "three_types \<subseteq> set (roster_types ranked_market)"
    and h5: "evolution_ticks ranked_market \<noteq> 0"
    by (simp_all add: evolution_defs)
  have h3: "set (ranking ranked_market) = set (traders ranked_market)"
    unfolding ranking_ranked_market by (auto simp: evolution_defs)
  from evolution_diversity [OF h1 h2 h3 h4 h5, THEN conjunct1] obtain m' where
    run: "evolve_with (ranking ranked_market) ranked_market = Inr m'"
    and div: "three_types \<subseteq> set (roster_types m')"
    by blast
  from evolve_ranked_market run
  have "roster_types m' = [''MeanReverter'', ''MomentumTrader'', ''MomentumTrader'', ''Monkey'']"
    by (auto simp: ranking_ranked_market)
  moreover have "roster_types ranked_market = [''MeanReverter'', ''Monkey'', ''MomentumTrader'', ''Monkey'']"
    by (simp add: evolution_defs)
  ultimately show ?thesis using run div by blast
qed

text \<open>
  C6. Roster stability. With valid handles in the roster, an evolution event and a whole tick
  (for every result of the sort and every behaviour of \<^verbatim>\<open>make_order\<close>) leave the list of
  ids of the roster as it was, hence its length and its set of ids. One replacement builds
  the clone with the killed trader's id, enters it in \<^verbatim>\<open>trader_map\<close> under that id, and
  writes it into one roster slot, the first that held a trader of that id.
\<close>

theorem roster_stability:
  assumes "handles_ok m"
  shows "(evolve_with sorted_traders m = Inr m' \<longrightarrow>
            roster_ids m' = roster_ids m \<and> length (traders m') = length (traders m) \<and>
            set (roster_ids m') = set (roster_ids m) \<and> handles_ok m') \<and>
         (tick_with srt make_order m = Inr m'' \<longrightarrow>
            roster_ids m'' = roster_ids m \<and> length (traders m'') = length (traders m) \<and>
            set (roster_ids m'') = set (roster_ids m) \<and> handles_ok m'') \<and>
         (roster_ids (replace_trader top_trader ident m) = roster_ids m \<and>
          trader_map (replace_trader top_trader ident m) ident = Some (length (store m)) \<and>
          get_id (store (replace_trader top_trader ident m) ! length (store m)) = ident \<and>
          (\<exists>i. traders (replace_trader top_trader ident m) = (traders m)[i := length (store m)] \<and>
               (i < length (traders m) \<longrightarrow> get_id (store m ! (traders m ! i)) = ident)))"
proof -
  have p1: "roster_ids m' = roster_ids m \<and> length (traders m') = length (traders m) \<and>
            set (roster_ids m') = set (roster_ids m) \<and> handles_ok m'"
    if run: "evolve_with sorted_traders m = Inr m'"
  proof -
    from evolve_with_roster [OF assms run] have h: "handles_ok m'" "roster_ids m' = roster_ids m"
      by simp_all
    from roster_ids_length_set [OF h(2)] h show ?thesis by simp
  qed
  have p2: "roster_ids m'' = roster_ids m \<and> length (traders m'') = length (traders m) \<and>
            set (roster_ids m'') = set (roster_ids m) \<and> handles_ok m''"
    if run: "tick_with srt make_order m = Inr m''"
  proof -
    from tick_with_roster [OF assms run] have h: "handles_ok m''" "roster_ids m'' = roster_ids m"
      by simp_all
    from roster_ids_length_set [OF h(2)] h show ?thesis by simp
  qed
  have p3: "roster_ids (replace_trader top_trader ident m) = roster_ids m"
    using assms by (rule replace_trader_roster_ids)
  have p4: "trader_map (replace_trader top_trader ident m) ident = Some (length (store m))"
    by (simp add: replace_trader_def Let_def)
  have p5: "get_id (store (replace_trader top_trader ident m) ! length (store m)) = ident"
    by (simp add: replace_trader_store clone_def get_id_def)
  note p6 = replace_trader_slot [OF assms, of top_trader ident]
  have q1: "evolve_with sorted_traders m = Inr m' \<longrightarrow>
            roster_ids m' = roster_ids m \<and> length (traders m') = length (traders m) \<and>
            set (roster_ids m') = set (roster_ids m) \<and> handles_ok m'"
    by (rule impI) (rule p1)
  have q2: "tick_with srt make_order m = Inr m'' \<longrightarrow>
            roster_ids m'' = roster_ids m \<and> length (traders m'') = length (traders m) \<and>
            set (roster_ids m'') = set (roster_ids m) \<and> handles_ok m''"
    by (rule impI) (rule p2)
  show ?thesis
    by (intro conjI; (rule q1 | rule q2 | rule p3 | rule p4 | rule p5 | rule p6))
qed

theorem roster_stability_witness:
  "\<exists>m'. tick_with ranking example_make_order (ranked_market\<lparr>timestep := 3\<rparr>) = Inr m' \<and>
        traders (ranked_market\<lparr>timestep := 3\<rparr>) = [1, 3, 2, 0] \<and> traders m' = [1, 4, 2, 0] \<and>
        roster_ids (ranked_market\<lparr>timestep := 3\<rparr>) = [1, 3, 2, 0] \<and> roster_ids m' = [1, 3, 2, 0]"
proof -
  let ?m = "ranked_market\<lparr>timestep := 3\<rparr>"
  have h: "handles_ok ?m" by (simp add: evolution_defs)
  from tick_ranked_market obtain m' where
    run: "tick_with ranking example_make_order ?m = Inr m'" and tr: "traders m' = [1, 4, 2, 0]"
    by blast
  have ids: "roster_ids ?m = [1, 3, 2, 0]" "traders ?m = [1, 3, 2, 0]"
    by (simp_all add: evolution_defs)
  from roster_stability [OF h, where srt = ranking and make_order = example_make_order and m'' = m',
      THEN conjunct2, THEN conjunct1] run
  have "roster_ids m' = roster_ids ?m" by blast
  with ids run tr show ?thesis by simp
qed

text \<open>
  C7. Ledger update. \<^verbatim>\<open>update_position\<close> does this arithmetic: for \<^verbatim>\<open>"BUY"\<close> the cash
  falls by the price (once, whatever the quantity) and the position rises by the quantity; for
  \<^verbatim>\<open>"SELL"\<close> the cash rises by the price and the position falls by the quantity. A pass that
  trades updates the store by one ledger update for the buyer's id and then one for the
  seller's id. A ledger update for an id that \<^verbatim>\<open>trader_map\<close> does not hold changes nothing;
  for an id it holds, it applies \<^verbatim>\<open>update_position\<close> once to that trader and leaves every
  other trader as it was.
\<close>

theorem ledger_update_registered:
  "update_position ''BUY'' price quantity t =
     t\<lparr>cash := cash t - price, position := position t + quantity\<rparr> \<and>
   update_position ''SELL'' price quantity t =
     t\<lparr>cash := cash t + price, position := position t - quantity\<rparr> \<and>
   (sells m = (k, r # q) # rest \<and> o_trader_id remaining_order \<noteq> o_trader_id r \<and>
      \<not> timestep m - o_timestep r > max_order_age m \<and>
      buy_step ord remaining_order m = Inr (remaining_order', m') \<longrightarrow>
      store m' =
        ledger_update (trader_map m) (o_trader_id r) ''SELL'' (o_price r)
          (min (o_position_size remaining_order) (o_position_size r))
          (ledger_update (trader_map m) (o_trader_id remaining_order) ''BUY'' (o_price r)
             (min (o_position_size remaining_order) (o_position_size r)) (store m))) \<and>
   (buys m = (k, r # q) # rest \<and> o_trader_id remaining_order \<noteq> o_trader_id r \<and>
      \<not> timestep m - o_timestep r > max_order_age m \<and>
      sell_step ord remaining_order m = Inr (remaining_order', m') \<longrightarrow>
      store m' =
        ledger_update (trader_map m) (o_trader_id remaining_order) ''SELL'' (o_price r)
          (min (o_position_size remaining_order) (o_position_size r))
          (ledger_update (trader_map m) (o_trader_id r) ''BUY'' (o_price r)
             (min (o_position_size remaining_order) (o_position_size r)) (store m))) \<and>
   (tm ident = None \<longrightarrow> ledger_update tm ident side price quantity st = st) \<and>
   (tm ident = Some a \<and> a < length st \<longrightarrow>
      length (ledger_update tm ident side price quantity st) = length st \<and>
      ledger_update tm ident side price quantity st ! a = update_position side price quantity (st ! a) \<and>
      (\<forall>b. b \<noteq> a \<longrightarrow> ledger_update tm ident side price quantity st ! b = st ! b))"
proof -
  have p1: "update_position ''BUY'' price quantity t =
     t\<lparr>cash := cash t - price, position := position t + quantity\<rparr>"
    by (simp add: update_position_def)
  have p2: "update_position ''SELL'' price quantity t =
     t\<lparr>cash := cash t + price, position := position t - quantity\<rparr>"
    by (simp add: update_position_def)
  have p3: "sells m = (k, r # q) # rest \<and> o_trader_id remaining_order \<noteq> o_trader_id r \<and>
      \<not> timestep m - o_timestep r > max_order_age m \<and>
      buy_step ord remaining_order m = Inr (remaining_order', m') \<longrightarrow>
      store m' =
        ledger_update (trader_map m) (o_trader_id r) ''SELL'' (o_price r)
          (min (o_position_size remaining_order) (o_position_size r))
          (ledger_update (trader_map m) (o_trader_id remaining_order) ''BUY'' (o_price r)
             (min (o_position_size remaining_order) (o_position_size r)) (store m))"
    using buy_step_store [of m k r q rest remaining_order ord remaining_order' m']
    by (simp add: stale_def)
  have p4: "buys m = (k, r # q) # rest \<and> o_trader_id remaining_order \<noteq> o_trader_id r \<and>
      \<not> timestep m - o_timestep r > max_order_age m \<and>
      sell_step ord remaining_order m = Inr (remaining_order', m') \<longrightarrow>
      store m' =
        ledger_update (trader_map m) (o_trader_id remaining_order) ''SELL'' (o_price r)
          (min (o_position_size remaining_order) (o_position_size r))
          (ledger_update (trader_map m) (o_trader_id r) ''BUY'' (o_price r)
             (min (o_position_size remaining_order) (o_position_size r)) (store m))"
    using sell_step_store [of m k r q rest remaining_order ord remaining_order' m']
    by (simp add: stale_def)
  have p5: "tm ident = None \<longrightarrow> ledger_update tm ident side price quantity st = st"
    by (simp add: ledger_update_def)
  have p6: "tm ident = Some a \<and> a < length st \<longrightarrow>
      length (ledger_update tm ident side price quantity st) = length st \<and>
      ledger_update tm ident side price quantity st ! a = update_position side price quantity (st ! a) \<and>
      (\<forall>b. b \<noteq> a \<longrightarrow> ledger_update tm ident side price quantity st ! b = st ! b)"
    by (simp add: ledger_update_def)
  show ?thesis
    by (intro conjI; (rule p1 | rule p2 | rule p3 | rule p4 | rule p5 | rule p6))
qed

theorem ledger_update_registered_witness:
  "\<exists>rem' m'. buy_step (Order ''BUY'' 101 1 3 ''MeanReverter'' 1) (Order ''BUY'' 101 1 3 ''MeanReverter'' 1)
        (example_market\<lparr>sells := [(101, [Order ''SELL'' 101 0 3 ''Monkey'' 10])]\<rparr>) = Inr (rem', m') \<and>
     map (\<lambda>t. (cash t, position t)) (store m') =
       [(100101, 9), (99899, 11), (100000, 10), (100000, 10)]"
proof -
  let ?r = "Order ''SELL'' 101 0 3 ''Monkey'' 10"
  let ?m = "example_market\<lparr>sells := [(101, [?r])]\<rparr>"
  let ?o = "Order ''BUY'' 101 1 3 ''MeanReverter'' 1"
  obtain rem' m' where run: "buy_step ?o ?o ?m = Inr (rem', m')"
    by (simp add: engine_defs)
  have h: "sells ?m = (101, ?r # []) # [] \<and> o_trader_id ?o \<noteq> o_trader_id ?r \<and>
      \<not> timestep ?m - o_timestep ?r > max_order_age ?m \<and>
      buy_step ?o ?o ?m = Inr (rem', m')"
    using run by (simp add: example_market_def)
  from ledger_update_registered [where m = ?m and k = 101 and r = ?r and q = "[]" and rest = "[]"
      and remaining_order = ?o and ord = ?o and remaining_order' = rem' and m' = m',
      THEN conjunct2, THEN conjunct2, THEN conjunct1] h
  have "store m' =
        ledger_update (trader_map ?m) (o_trader_id ?r) ''SELL'' (o_price ?r)
          (min (o_position_size ?o) (o_position_size ?r))
          (ledger_update (trader_map ?m) (o_trader_id ?o) ''BUY'' (o_price ?r)
             (min (o_position_size ?o) (o_position_size ?r)) (store ?m))"
    by (rule mp)
  then have "map (\<lambda>t. (cash t, position t)) (store m') =
       [(100101, 9), (99899, 11), (100000, 10), (100000, 10)]"
    by (simp add: ledger_update_def update_position_def example_market_def new_trader_def)
  with run show ?thesis by (intro exI [of _ rem'] exI [of _ m'] conjI)
qed

text \<open>
  C7, as stated, fails for a counterparty that is a market maker: market makers are never
  entered in \<^verbatim>\<open>trader_map\<close>. Here a trader buys one unit at 101 from the resting order of
  market maker 100000: the trade is recorded with seller 100000, and the only ledger that
  changes is the buyer's.
\<close>

theorem market_maker_ledger_counterexample:
  "\<not> isl (process_aggressive_order (Order ''BUY'' 101 1 3 ''MeanReverter'' 1)
           (example_market\<lparr>sells := [(101, [Order ''SELL'' 101 100000 0 ''MarketMaker'' 10])]\<rparr>)) \<and>
   map buyer_id (trade_history (projr (process_aggressive_order (Order ''BUY'' 101 1 3 ''MeanReverter'' 1)
           (example_market\<lparr>sells := [(101, [Order ''SELL'' 101 100000 0 ''MarketMaker'' 10])]\<rparr>)))) = [1] \<and>
   map seller_id (trade_history (projr (process_aggressive_order (Order ''BUY'' 101 1 3 ''MeanReverter'' 1)
           (example_market\<lparr>sells := [(101, [Order ''SELL'' 101 100000 0 ''MarketMaker'' 10])]\<rparr>)))) = [100000] \<and>
   map t_price (trade_history (projr (process_aggressive_order (Order ''BUY'' 101 1 3 ''MeanReverter'' 1)
           (example_market\<lparr>sells := [(101, [Order ''SELL'' 101 100000 0 ''MarketMaker'' 10])]\<rparr>)))) = [101] \<and>
   store (projr (process_aggressive_order (Order ''BUY'' 101 1 3 ''MeanReverter'' 1)
           (example_market\<lparr>sells := [(101, [Order ''SELL'' 101 100000 0 ''MarketMaker'' 10])]\<rparr>))) =
     (store example_market)
       [1 := (store example_market ! 1)\<lparr>cash := 100000 - 101, position := 10 + 1\<rparr>] \<and>
   trader_map example_market 100000 = None"
  by (simp add: engine_defs)




text \<open>
  C9. Matching order inside a level. A level is matched in queue order, and the origin time
  step of an order is not consulted. When the loop is entered and the order at the front of
  the best opposite level is neither of the incoming order's owner nor stale, the first trade
  of the loop is the trade against that order. On a side sorted by price, \<^verbatim>\<open>side[p].push(o)\<close>
  puts the order at the back of the queue of level \<open>p\<close> (a new queue when the level is new).
  A resting order that is filled in part is popped and pushed again: when its level holds
  other orders it goes to the back of that queue, behind orders that arrived after it.
\<close>

theorem queue_order_matching:
  "(sells m = (k, r # q) # rest \<and> buy_cond remaining_order m \<and>
      o_trader_id remaining_order \<noteq> o_trader_id r \<and>
      \<not> timestep m - o_timestep r > max_order_age m \<and>
      buy_loop ord remaining_order m = Inr (remaining_order', m') \<longrightarrow>
      (\<exists>ts. trade_history m' = trade_history m @ buy_trade m remaining_order r # ts)) \<and>
   (buys m = (k, r # q) # rest \<and> sell_cond remaining_order m \<and>
      o_trader_id remaining_order \<noteq> o_trader_id r \<and>
      \<not> timestep m - o_timestep r > max_order_age m \<and>
      sell_loop ord remaining_order m = Inr (remaining_order', m') \<longrightarrow>
      (\<exists>ts. trade_history m' = trade_history m @ sell_trade m remaining_order r # ts)) \<and>
   (sorted_wrt (<) (map fst side) \<longrightarrow>
      map_of (level_push (<) p ordr side) p =
        Some ((case map_of side p of None \<Rightarrow> [] | Some q \<Rightarrow> q) @ [ordr])) \<and>
   (sorted_wrt (>) (map fst side) \<longrightarrow>
      map_of (level_push (>) p ordr side) p =
        Some ((case map_of side p of None \<Rightarrow> [] | Some q \<Rightarrow> q) @ [ordr])) \<and>
   (sells m = (k, r # q) # rest \<and> q \<noteq> [] \<and> k = o_price r \<and>
      o_trader_id remaining_order \<noteq> o_trader_id r \<and>
      \<not> timestep m - o_timestep r > max_order_age m \<and>
      o_position_size remaining_order < o_position_size r \<longrightarrow>
      (\<exists>remaining_order' m'. buy_step ord remaining_order m = Inr (remaining_order', m') \<and>
         sells m' = (k, q @ [r\<lparr>o_position_size :=
                                 o_position_size r - o_position_size remaining_order\<rparr>]) # rest)) \<and>
   (buys m = (k, r # q) # rest \<and> q \<noteq> [] \<and> k = o_price r \<and>
      o_trader_id remaining_order \<noteq> o_trader_id r \<and>
      \<not> timestep m - o_timestep r > max_order_age m \<and>
      o_position_size remaining_order < o_position_size r \<longrightarrow>
      (\<exists>remaining_order' m'. sell_step ord remaining_order m = Inr (remaining_order', m') \<and>
         buys m' = (k, q @ [r\<lparr>o_position_size :=
                                o_position_size r - o_position_size remaining_order\<rparr>]) # rest))"
proof -
  have p1: "sells m = (k, r # q) # rest \<and> buy_cond remaining_order m \<and>
      o_trader_id remaining_order \<noteq> o_trader_id r \<and>
      \<not> timestep m - o_timestep r > max_order_age m \<and>
      buy_loop ord remaining_order m = Inr (remaining_order', m') \<longrightarrow>
      (\<exists>ts. trade_history m' = trade_history m @ buy_trade m remaining_order r # ts)"
    using buy_loop_first_trade [of m k r q rest remaining_order ord remaining_order' m']
    by (simp add: stale_def)
  have p2: "buys m = (k, r # q) # rest \<and> sell_cond remaining_order m \<and>
      o_trader_id remaining_order \<noteq> o_trader_id r \<and>
      \<not> timestep m - o_timestep r > max_order_age m \<and>
      sell_loop ord remaining_order m = Inr (remaining_order', m') \<longrightarrow>
      (\<exists>ts. trade_history m' = trade_history m @ sell_trade m remaining_order r # ts)"
    using sell_loop_first_trade [of m k r q rest remaining_order ord remaining_order' m']
    by (simp add: stale_def)
  have p3: "sorted_wrt (<) (map fst side) \<longrightarrow>
      map_of (level_push (<) p ordr side) p =
        Some ((case map_of side p of None \<Rightarrow> [] | Some q \<Rightarrow> q) @ [ordr])"
    by (rule impI) (rule level_push_back_asc)
  have p4: "sorted_wrt (>) (map fst side) \<longrightarrow>
      map_of (level_push (>) p ordr side) p =
        Some ((case map_of side p of None \<Rightarrow> [] | Some q \<Rightarrow> q) @ [ordr])"
    by (rule impI) (rule level_push_back_desc)
  have p5: "sells m = (k, r # q) # rest \<and> q \<noteq> [] \<and> k = o_price r \<and>
      o_trader_id remaining_order \<noteq> o_trader_id r \<and>
      \<not> timestep m - o_timestep r > max_order_age m \<and>
      o_position_size remaining_order < o_position_size r \<longrightarrow>
      (\<exists>remaining_order' m'. buy_step ord remaining_order m = Inr (remaining_order', m') \<and>
         sells m' = (k, q @ [r\<lparr>o_position_size :=
                                 o_position_size r - o_position_size remaining_order\<rparr>]) # rest)"
    using buy_step_partial_fill [of m k r q rest remaining_order ord]
    by (simp add: stale_def)
  have p6: "buys m = (k, r # q) # rest \<and> q \<noteq> [] \<and> k = o_price r \<and>
      o_trader_id remaining_order \<noteq> o_trader_id r \<and>
      \<not> timestep m - o_timestep r > max_order_age m \<and>
      o_position_size remaining_order < o_position_size r \<longrightarrow>
      (\<exists>remaining_order' m'. sell_step ord remaining_order m = Inr (remaining_order', m') \<and>
         buys m' = (k, q @ [r\<lparr>o_position_size :=
                                o_position_size r - o_position_size remaining_order\<rparr>]) # rest)"
    using sell_step_partial_fill [of m k r q rest remaining_order ord]
    by (simp add: stale_def)
  show ?thesis
    by (intro conjI; (rule p1 | rule p2 | rule p3 | rule p4 | rule p5 | rule p6))
qed

theorem queue_order_matching_witness:
  "\<exists>rem' m'. buy_loop (Order ''BUY'' 100 3 3 ''Monkey'' 4) (Order ''BUY'' 100 3 3 ''Monkey'' 4)
        (example_market\<lparr>sells := [(100, [Order ''SELL'' 100 1 2 ''MeanReverter'' 10,
                                           Order ''SELL'' 100 0 1 ''Monkey'' 6])]\<rparr>) = Inr (rem', m') \<and>
     map seller_id (trade_history m') = [1] \<and>
     sells m' = [(100, [Order ''SELL'' 100 0 1 ''Monkey'' 6, Order ''SELL'' 100 1 2 ''MeanReverter'' 6])]"
proof -
  let ?b = "Order ''SELL'' 100 1 2 ''MeanReverter'' 10"
  let ?a = "Order ''SELL'' 100 0 1 ''Monkey'' 6"
  let ?m = "example_market\<lparr>sells := [(100, [?b, ?a])]\<rparr>"
  let ?o = "Order ''BUY'' 100 3 3 ''Monkey'' 4"
  obtain rem' m' where run: "buy_loop ?o ?o ?m = Inr (rem', m')"
    and res: "sells m' = [(100, [?a, Order ''SELL'' 100 1 2 ''MeanReverter'' 6])]"
    by (simp add: engine_defs)
  have h: "sells ?m = (100, ?b # [?a]) # [] \<and> buy_cond ?o ?m \<and>
      o_trader_id ?o \<noteq> o_trader_id ?b \<and>
      \<not> timestep ?m - o_timestep ?b > max_order_age ?m \<and>
      buy_loop ?o ?o ?m = Inr (rem', m')"
    using run by (simp add: buy_cond_def example_market_def)
  from queue_order_matching [where m = ?m and k = 100 and r = ?b and q = "[?a]" and rest = "[]"
      and remaining_order = ?o and ord = ?o and remaining_order' = rem' and m' = m',
      THEN conjunct1] h
  have "\<exists>ts. trade_history m' = trade_history ?m @ buy_trade ?m ?o ?b # ts"
    by (rule mp)
  then obtain ts where "trade_history m' = buy_trade ?m ?o ?b # ts"
    by (auto simp: example_market_def)
  moreover have "length (trade_history m') = 1"
    using run by (simp add: engine_defs) auto
  ultimately have sid: "map seller_id (trade_history m') = [1]"
    by (simp add: buy_trade_def)
  show ?thesis
    by (rule exI [of _ rem'], rule exI [of _ m'], intro conjI) (rule run sid res)+
qed

text \<open>
  C9, as stated, fails after a partial fill. Orders A (id 0, origin 1) and B (id 1, origin 2)
  rest at the price 100, A first. A buy of 4 trades with A and pushes the rest of A behind B.
  The next buy of 4 trades with B, although A has the earlier origin time step and was
  inserted first.
\<close>

theorem origin_tick_priority_counterexample:
  "\<not> isl (process_all (take 3 fifo_orders) example_market) \<and>
   sells (projr (process_all (take 3 fifo_orders) example_market)) =
     [(100, [Order ''SELL'' 100 1 2 ''MeanReverter'' 10, Order ''SELL'' 100 0 1 ''Monkey'' 6])] \<and>
   \<not> isl (process_all fifo_orders example_market) \<and>
   map buyer_id (trade_history (projr (process_all fifo_orders example_market))) = [2, 3] \<and>
   map seller_id (trade_history (projr (process_all fifo_orders example_market))) = [0, 1] \<and>
   map t_quantity (trade_history (projr (process_all fifo_orders example_market))) = [4, 4]"
  by (simp add: fifo_orders_def engine_defs)

text \<open>
  C10. Market-maker quotes expire. \<^verbatim>\<open>quote\<close> builds both orders with origin time step 0,
  type \<^verbatim>\<open>MarketMaker\<close> and the maker's id. When \<open>timestep > max_order_age\<close>, a pass that
  finds a market-maker order with origin 0 at the front of the best opposite level pops it and
  changes nothing else. Over a whole call with \<open>timestep > max_order_age\<close>, on a book whose
  market-maker orders all have origin 0: no trade appended has a market maker as its resting
  party. A call keeps the book in that form when the incoming order, if of type
  \<^verbatim>\<open>MarketMaker\<close>, has origin 0.
\<close>

theorem market_maker_orders_expire:
  "(\<forall>ordr \<in> set (quote mm p).
      o_timestep ordr = 0 \<and> o_trader_type ordr = ''MarketMaker'' \<and> o_trader_id ordr = mm_id mm) \<and>
   (timestep m > max_order_age m \<and> o_trader_type r = ''MarketMaker'' \<and> o_timestep r = 0 \<and>
      sells m = (k, r # q) # rest \<and> buy_cond remaining_order m \<longrightarrow>
      buy_step ord remaining_order m = Inr (remaining_order, m\<lparr>sells := pop_front (sells m)\<rparr>)) \<and>
   (timestep m > max_order_age m \<and> o_trader_type r = ''MarketMaker'' \<and> o_timestep r = 0 \<and>
      buys m = (k, r # q) # rest \<and> sell_cond remaining_order m \<longrightarrow>
      sell_step ord remaining_order m = Inr (remaining_order, m\<lparr>buys := pop_front (buys m)\<rparr>)) \<and>
   (timestep m > max_order_age m \<and> mm_origin_zero (buys m) \<and> mm_origin_zero (sells m) \<and>
      process_aggressive_order ord m = Inr m' \<longrightarrow>
      (\<exists>ts. trade_history m' = trade_history m @ ts \<and>
         (\<forall>t \<in> set ts. (o_type ord = ''BUY'' \<and> seller_type t \<noteq> ''MarketMaker'') \<or>
                       (o_type ord = ''SELL'' \<and> buyer_type t \<noteq> ''MarketMaker'')))) \<and>
   (mm_origin_zero (buys m) \<and> mm_origin_zero (sells m) \<and>
      (o_trader_type ord = ''MarketMaker'' \<longrightarrow> o_timestep ord = 0) \<and>
      process_aggressive_order ord m = Inr m' \<longrightarrow>
      mm_origin_zero (buys m') \<and> mm_origin_zero (sells m'))"
proof -
  have p1: "\<forall>ordr \<in> set (quote mm p).
      o_timestep ordr = 0 \<and> o_trader_type ordr = ''MarketMaker'' \<and> o_trader_id ordr = mm_id mm"
    by (simp add: quote_def Let_def)
  have p2: "timestep m > max_order_age m \<and> o_trader_type r = ''MarketMaker'' \<and> o_timestep r = 0 \<and>
      sells m = (k, r # q) # rest \<and> buy_cond remaining_order m \<longrightarrow>
      buy_step ord remaining_order m = Inr (remaining_order, m\<lparr>sells := pop_front (sells m)\<rparr>)"
  proof
    assume a: "timestep m > max_order_age m \<and> o_trader_type r = ''MarketMaker'' \<and> o_timestep r = 0 \<and>
      sells m = (k, r # q) # rest \<and> buy_cond remaining_order m"
    then have "sells m = (k, r # q) # rest" "o_trader_id remaining_order = o_trader_id r \<or> stale m r"
      by (simp_all add: stale_def)
    then show "buy_step ord remaining_order m = Inr (remaining_order, m\<lparr>sells := pop_front (sells m)\<rparr>)"
      by (rule buy_step_discard)
  qed
  have p3: "timestep m > max_order_age m \<and> o_trader_type r = ''MarketMaker'' \<and> o_timestep r = 0 \<and>
      buys m = (k, r # q) # rest \<and> sell_cond remaining_order m \<longrightarrow>
      sell_step ord remaining_order m = Inr (remaining_order, m\<lparr>buys := pop_front (buys m)\<rparr>)"
  proof
    assume a: "timestep m > max_order_age m \<and> o_trader_type r = ''MarketMaker'' \<and> o_timestep r = 0 \<and>
      buys m = (k, r # q) # rest \<and> sell_cond remaining_order m"
    then have "buys m = (k, r # q) # rest" "o_trader_id remaining_order = o_trader_id r \<or> stale m r"
      by (simp_all add: stale_def)
    then show "sell_step ord remaining_order m = Inr (remaining_order, m\<lparr>buys := pop_front (buys m)\<rparr>)"
      by (rule sell_step_discard)
  qed
  have p4: "timestep m > max_order_age m \<and> mm_origin_zero (buys m) \<and> mm_origin_zero (sells m) \<and>
      process_aggressive_order ord m = Inr m' \<longrightarrow>
      (\<exists>ts. trade_history m' = trade_history m @ ts \<and>
         (\<forall>t \<in> set ts. (o_type ord = ''BUY'' \<and> seller_type t \<noteq> ''MarketMaker'') \<or>
                       (o_type ord = ''SELL'' \<and> buyer_type t \<noteq> ''MarketMaker'')))"
  proof
    assume a: "timestep m > max_order_age m \<and> mm_origin_zero (buys m) \<and> mm_origin_zero (sells m) \<and>
      process_aggressive_order ord m = Inr m'"
    then have late: "timestep m > max_order_age m" and zb: "mm_origin_zero (buys m)"
      and zs: "mm_origin_zero (sells m)" and run: "process_aggressive_order ord m = Inr m'"
      by simp_all
    have fresh: "o_trader_type r \<noteq> ''MarketMaker''"
      if "r \<in> set (resting_orders side)" "mm_origin_zero side" "\<not> stale m r" for r side
      using that late by (auto simp: mm_origin_zero_def stale_def)
    consider "o_type ord = ''BUY''" | "o_type ord = ''SELL''"
      | "o_type ord \<noteq> ''BUY''" "o_type ord \<noteq> ''SELL''" by blast
    then show "\<exists>ts. trade_history m' = trade_history m @ ts \<and>
         (\<forall>t \<in> set ts. (o_type ord = ''BUY'' \<and> seller_type t \<noteq> ''MarketMaker'') \<or>
                       (o_type ord = ''SELL'' \<and> buyer_type t \<noteq> ''MarketMaker''))"
    proof cases
      case 1
      from process_buy_trades [OF 1 run] obtain ts where
        h: "trade_history m' = trade_history m @ ts"
        and tr: "\<forall>t \<in> set ts. \<exists>r \<in> set (resting_orders (sells m)). taker_buys m ord r t"
        by blast
      have "\<forall>t \<in> set ts. seller_type t \<noteq> ''MarketMaker''"
      proof
        fix t assume "t \<in> set ts"
        with tr obtain r where "r \<in> set (resting_orders (sells m))" "taker_buys m ord r t" by blast
        with fresh [OF _ zs] show "seller_type t \<noteq> ''MarketMaker''"
          by (simp add: taker_buys_def)
      qed
      with 1 h show ?thesis by blast
    next
      case 2
      from process_sell_trades [OF 2 run] obtain ts where
        h: "trade_history m' = trade_history m @ ts"
        and tr: "\<forall>t \<in> set ts. \<exists>r \<in> set (resting_orders (buys m)). taker_sells m ord r t"
        by blast
      have "\<forall>t \<in> set ts. buyer_type t \<noteq> ''MarketMaker''"
      proof
        fix t assume "t \<in> set ts"
        with tr obtain r where "r \<in> set (resting_orders (buys m))" "taker_sells m ord r t" by blast
        with fresh [OF _ zb] show "buyer_type t \<noteq> ''MarketMaker''"
          by (simp add: taker_sells_def)
      qed
      with 2 h show ?thesis by blast
    next
      case 3
      with run have "m' = m" by (simp add: process_hold)
      then show ?thesis by simp
    qed
  qed
  have p5: "mm_origin_zero (buys m) \<and> mm_origin_zero (sells m) \<and>
      (o_trader_type ord = ''MarketMaker'' \<longrightarrow> o_timestep ord = 0) \<and>
      process_aggressive_order ord m = Inr m' \<longrightarrow>
      mm_origin_zero (buys m') \<and> mm_origin_zero (sells m')"
    using process_mm_origin_zero [of m ord m'] by blast
  show ?thesis
    by (intro conjI; (rule p1 | rule p2 | rule p3 | rule p4 | rule p5))
qed

theorem market_maker_orders_expire_witness:
  "\<exists>m'. process_aggressive_order (Order ''BUY'' 101 2 10 ''MomentumTrader'' 1)
          (example_market\<lparr>timestep := 10,
             sells := [(101, [Order ''SELL'' 101 100000 0 ''MarketMaker'' 10,
                              Order ''SELL'' 101 0 8 ''Monkey'' 2])]\<rparr>) = Inr m' \<and>
        map (\<lambda>t. (seller_id t, seller_type t)) (trade_history m') = [(0, ''Monkey'')] \<and>
        sells m' = [(101, [Order ''SELL'' 101 0 8 ''Monkey'' 1])]"
proof -
  let ?m = "example_market\<lparr>timestep := 10,
             sells := [(101, [Order ''SELL'' 101 100000 0 ''MarketMaker'' 10,
                              Order ''SELL'' 101 0 8 ''Monkey'' 2])]\<rparr>"
  let ?o = "Order ''BUY'' 101 2 10 ''MomentumTrader'' 1"
  obtain m' where run: "process_aggressive_order ?o ?m = Inr m'"
    and res: "map (\<lambda>t. (seller_id t, seller_type t)) (trade_history m') = [(0, ''Monkey'')]"
      "sells m' = [(101, [Order ''SELL'' 101 0 8 ''Monkey'' 1])]"
    by (simp add: engine_defs)
  have h: "timestep ?m > max_order_age ?m \<and> mm_origin_zero (buys ?m) \<and> mm_origin_zero (sells ?m) \<and>
      process_aggressive_order ?o ?m = Inr m'"
    using run by (simp add: mm_origin_zero_def resting_orders_simps example_market_def)
  from market_maker_orders_expire [where m = ?m and ord = ?o and m' = m',
      THEN conjunct2, THEN conjunct2, THEN conjunct2, THEN conjunct1] h
  have "\<exists>ts. trade_history m' = trade_history ?m @ ts \<and>
         (\<forall>t \<in> set ts. (o_type ?o = ''BUY'' \<and> seller_type t \<noteq> ''MarketMaker'') \<or>
                       (o_type ?o = ''SELL'' \<and> buyer_type t \<noteq> ''MarketMaker''))"
    by (rule mp)
  with run res show ?thesis by (intro exI [of _ m'] conjI)
qed

end
